theory Spec2Isabelle
  imports Complex_Main "HOL-Library.Word" "HOL-Library.Multiset"
begin

text \<open>
  The three functions of \<open>utils/pdfUtils\<close>: \<open>formatPageRanges\<close>, which writes a list of
  page numbers as ranges, \<open>analyzeImagePixelData\<close>, which classifies a rendered page as
  colour or B&W from its RGBA bytes, and \<open>calculateSmartSplitStats\<close>, which sorts the pages
  of a document into four print jobs by the sheets they share. Page numbers are integers,
  the bytes of a pixel buffer are 8-bit words, and each loop is a recursive function on
  the loop variable. Where the code computes with numbers that need not be small
  integers, in the coverage quotient and in the sum \<open>prev + 1\<close> and the text of a page
  number, the arithmetic is that of doubles.
\<close>

section \<open>Shared JavaScript data: sets of numbers kept in insertion order\<close>

text \<open>
  A JavaScript \<open>Set\<close> of numbers remembers the order of first insertion; \<open>add\<close> of a
  number that is already present changes nothing. It is modelled as a list without repetitions.
\<close>

definition set_add :: "int list \<Rightarrow> int \<Rightarrow> int list" where
  "set_add s x = (if x \<in> set s then s else s @ [x])"

text \<open>\<open>new Set(xs)\<close>: the elements of the array are added from left to right.\<close>

definition new_Set :: "int list \<Rightarrow> int list" where
  "new_Set xs = foldl set_add [] xs"

text \<open>
  \<open>arr.sort((a, b) => a - b)\<close> on numbers: ascending numeric order.
\<close>

definition sort_numeric :: "int list \<Rightarrow> int list" where
  "sort_numeric xs = sort xs"

section \<open>calculateSmartSplitStats\<close>

record page_status =
  pageNumber :: int
  isColor :: bool

record split_sets =
  doubleColorSet :: "int list"
  doubleBWSet :: "int list"
  mixedColorSet :: "int list"
  mixedBWSet :: "int list"

record split_stats =
  doubleColorSheets :: "int list"
  doubleBWSheets :: "int list"
  mixedColorPages :: "int list"
  mixedBWPages :: "int list"

text \<open>
  \<open>allPagesStatus.forEach(p => pageMap.set(p.pageNumber, p.isColor))\<close>: a later entry
  with the same page number overwrites an earlier one.
\<close>

definition build_pageMap :: "page_status list \<Rightarrow> (int \<rightharpoonup> bool)" where
  "build_pageMap allPagesStatus =
     foldl (\<lambda>m p. m(pageNumber p \<mapsto> isColor p)) Map.empty allPagesStatus"

text \<open>\<open>pageMap.get(k) || false\<close>: an absent key reads as \<open>undefined\<close>, which is falsy.\<close>

definition get_or_false :: "(int \<rightharpoonup> bool) \<Rightarrow> int \<Rightarrow> bool" where
  "get_or_false pageMap k = (case pageMap k of None \<Rightarrow> False | Some c \<Rightarrow> c)"

text \<open>The body of the loop over sheets, for the sheet whose odd page is \<open>i\<close>.\<close>

definition sheet_step :: "(int \<rightharpoonup> bool) \<Rightarrow> int \<Rightarrow> int \<Rightarrow> split_sets \<Rightarrow> split_sets" where
  "sheet_step pageMap totalPages i s =
     (let pageA = i;
          pageB = i + 1;
          isAColor = get_or_false pageMap pageA;
          hasB = (pageB \<le> totalPages);
          isBColor = (if hasB then get_or_false pageMap pageB else False)
      in if \<not> hasB then
           (if isAColor then s\<lparr>mixedColorSet := set_add (mixedColorSet s) pageA\<rparr>
            else s\<lparr>mixedBWSet := set_add (mixedBWSet s) pageA\<rparr>)
         else if isAColor \<and> isBColor then
           s\<lparr>doubleColorSet := set_add (set_add (doubleColorSet s) pageA) pageB\<rparr>
         else if \<not> isAColor \<and> \<not> isBColor then
           s\<lparr>doubleBWSet := set_add (set_add (doubleBWSet s) pageA) pageB\<rparr>
         else
           (let s1 = (if isAColor then s\<lparr>mixedColorSet := set_add (mixedColorSet s) pageA\<rparr>
                      else s\<lparr>mixedBWSet := set_add (mixedBWSet s) pageA\<rparr>)
            in if isBColor then s1\<lparr>mixedColorSet := set_add (mixedColorSet s1) pageB\<rparr>
               else s1\<lparr>mixedBWSet := set_add (mixedBWSet s1) pageB\<rparr>))"

text \<open>\<open>for (let i = 1; i <= totalPages; i += 2)\<close>, started at any \<open>i\<close>.\<close>

function sheet_loop :: "(int \<rightharpoonup> bool) \<Rightarrow> int \<Rightarrow> int \<Rightarrow> split_sets \<Rightarrow> split_sets" where
  "sheet_loop pageMap totalPages i s =
     (if i \<le> totalPages then sheet_loop pageMap totalPages (i + 2) (sheet_step pageMap totalPages i s)
      else s)"
  by pat_completeness auto
termination
  by (relation "measure (\<lambda>(pageMap, totalPages, i, s). nat (totalPages + 1 - i))") auto

declare sheet_loop.simps [simp del]

definition empty_sets :: split_sets where
  "empty_sets = \<lparr>doubleColorSet = [], doubleBWSet = [], mixedColorSet = [], mixedBWSet = []\<rparr>"

definition calculateSmartSplitStats :: "page_status list \<Rightarrow> int \<Rightarrow> split_stats" where
  "calculateSmartSplitStats allPagesStatus totalPages =
     (let pageMap = build_pageMap allPagesStatus;
          s = sheet_loop pageMap totalPages 1 empty_sets
      in \<lparr>doubleColorSheets = sort_numeric (doubleColorSet s),
          doubleBWSheets = sort_numeric (doubleBWSet s),
          mixedColorPages = sort_numeric (mixedColorSet s),
          mixedBWPages = sort_numeric (mixedBWSet s)\<rparr>)"

text \<open>
  The function has no \<open>throw\<close> statement, and \<open>Map.get\<close>, \<open>Map.set\<close>, \<open>Set.add\<close> and
  the sort cannot raise: every call returns. The outcome of a call is an error or a
  result; the source only ever produces a result.
\<close>

datatype error = InvalidBufferError | InvalidPageNumberError

definition calculateSmartSplitStats_call :: "page_status list \<Rightarrow> int \<Rightarrow> error + split_stats" where
  "calculateSmartSplitStats_call allPagesStatus totalPages =
     Inr (calculateSmartSplitStats allPagesStatus totalPages)"

section \<open>JavaScript numbers\<close>

text \<open>
  A JavaScript number is a double: a finite number, one of the two infinities, or \<open>NaN\<close>.
  A finite double is modelled as the real number it stands for, and an operation on
  finite numbers as the exact operation on the reals followed by rounding to the nearest
  double, ties to the even mantissa.
\<close>

datatype js_number = Num real | PosInfinity | NegInfinity | NaN

text \<open>The position of the leading bit of a positive natural number.\<close>

fun floorlog2 :: "nat \<Rightarrow> nat" where
  "floorlog2 n = (if n < 2 then 0 else Suc (floorlog2 (n div 2)))"

declare floorlog2.simps [simp del]

definition pow2 :: "int \<Rightarrow> real" where
  "pow2 e = (if 0 \<le> e then 2 ^ nat e else 1 / 2 ^ nat (- e))"

text \<open>The exponent \<open>e\<close> of a positive real \<open>a\<close>: the integer with \<open>2^e \<le> a < 2^(e+1)\<close>.\<close>

definition binary_exponent :: "real \<Rightarrow> int" where
  "binary_exponent a =
     (if 1 \<le> a then int (floorlog2 (nat \<lfloor>a\<rfloor>))
      else - int (Suc (floorlog2 (nat \<lceil>1 / a\<rceil> - 1))))"

text \<open>
  The double nearest to a positive real \<open>a\<close>, as a real: 53 bits of mantissa, the smallest
  exponent that of the subnormal numbers, and of two nearest doubles the one with the even
  mantissa.
\<close>

definition round_magnitude :: "real \<Rightarrow> real" where
  "round_magnitude a =
     (let e = max (binary_exponent a) (- 1022);
          ulp = pow2 (e - 52);
          n = a / ulp;
          f = \<lfloor>n\<rfloor>;
          d = n - of_int f;
          r = (if d < 1 / 2 then f else if 1 / 2 < d then f + 1
               else if even f then f else f + 1)
      in of_int r * ulp)"

text \<open>Rounding of a real to a double; from \<open>2^1024\<close> on the result is an infinity.\<close>

definition js_round :: "real \<Rightarrow> js_number" where
  "js_round x =
     (if x = 0 then Num 0
      else
        (let y = round_magnitude \<bar>x\<bar>
         in if pow2 1024 \<le> y then (if x < 0 then NegInfinity else PosInfinity)
            else Num (if x < 0 then - y else y)))"

fun js_add :: "js_number \<Rightarrow> js_number \<Rightarrow> js_number" where
  "js_add (Num x) (Num y) = js_round (x + y)"
| "js_add NaN _ = NaN"
| "js_add _ NaN = NaN"
| "js_add PosInfinity NegInfinity = NaN"
| "js_add NegInfinity PosInfinity = NaN"
| "js_add PosInfinity _ = PosInfinity"
| "js_add NegInfinity _ = NegInfinity"
| "js_add _ PosInfinity = PosInfinity"
| "js_add _ NegInfinity = NegInfinity"

fun js_sub :: "js_number \<Rightarrow> js_number \<Rightarrow> js_number" where
  "js_sub (Num x) (Num y) = js_round (x - y)"
| "js_sub NaN _ = NaN"
| "js_sub _ NaN = NaN"
| "js_sub PosInfinity PosInfinity = NaN"
| "js_sub NegInfinity NegInfinity = NaN"
| "js_sub PosInfinity _ = PosInfinity"
| "js_sub NegInfinity _ = NegInfinity"
| "js_sub _ PosInfinity = NegInfinity"
| "js_sub _ NegInfinity = PosInfinity"

fun js_abs :: "js_number \<Rightarrow> js_number" where
  "js_abs (Num x) = Num \<bar>x\<bar>"
| "js_abs NaN = NaN"
| "js_abs _ = PosInfinity"

fun js_max :: "js_number \<Rightarrow> js_number \<Rightarrow> js_number" where
  "js_max (Num x) (Num y) = Num (max x y)"
| "js_max NaN _ = NaN"
| "js_max _ NaN = NaN"
| "js_max PosInfinity _ = PosInfinity"
| "js_max _ PosInfinity = PosInfinity"
| "js_max NegInfinity y = y"
| "js_max x NegInfinity = x"

text \<open>\<open>Math.max(x, y, z)\<close>: \<open>NaN\<close> as soon as one argument is \<open>NaN\<close>.\<close>

definition js_max3 :: "js_number \<Rightarrow> js_number \<Rightarrow> js_number \<Rightarrow> js_number" where
  "js_max3 x y z = js_max (js_max x y) z"

text \<open>\<open>x > y\<close> and \<open>x >= y\<close>: false as soon as one side is \<open>NaN\<close>.\<close>

fun js_gt :: "js_number \<Rightarrow> js_number \<Rightarrow> bool" where
  "js_gt (Num x) (Num y) = (x > y)"
| "js_gt NaN _ = False"
| "js_gt _ NaN = False"
| "js_gt NegInfinity _ = False"
| "js_gt _ PosInfinity = False"
| "js_gt PosInfinity _ = True"
| "js_gt _ NegInfinity = True"

fun js_ge :: "js_number \<Rightarrow> js_number \<Rightarrow> bool" where
  "js_ge (Num x) (Num y) = (x \<ge> y)"
| "js_ge NaN _ = False"
| "js_ge _ NaN = False"
| "js_ge PosInfinity _ = True"
| "js_ge _ NegInfinity = True"
| "js_ge NegInfinity _ = False"
| "js_ge _ PosInfinity = False"

text \<open>\<open>x === y\<close> on numbers: \<open>NaN\<close> is equal to nothing.\<close>

fun js_strict_eq :: "js_number \<Rightarrow> js_number \<Rightarrow> bool" where
  "js_strict_eq (Num x) (Num y) = (x = y)"
| "js_strict_eq PosInfinity PosInfinity = True"
| "js_strict_eq NegInfinity NegInfinity = True"
| "js_strict_eq _ _ = False"

text \<open>
  \<open>c / t\<close> for a count \<open>c\<close> and a finite \<open>t\<close> that is not negative: \<open>0 / 0\<close> is \<open>NaN\<close>, a
  positive count divided by zero is \<open>Infinity\<close>, and any other quotient is rounded.
\<close>

definition js_div :: "nat \<Rightarrow> real \<Rightarrow> js_number" where
  "js_div c t = (if t = 0 then (if c = 0 then NaN else PosInfinity) else js_round (real c / t))"

section \<open>analyzeImagePixelData\<close>

text \<open>
  A read past the end of the typed array gives \<open>undefined\<close>, which arithmetic turns into
  \<open>NaN\<close>. The length of a typed array is below \<open>2^53\<close>, so the count of colour pixels and
  \<open>data.length / 4\<close> are exact; the coverage quotient is rounded. The two thresholds are
  any JavaScript numbers.
\<close>

text \<open>\<open>data[i]\<close> as an operand of arithmetic.\<close>

definition js_read :: "8 word list \<Rightarrow> nat \<Rightarrow> js_number" where
  "js_read data i = (if i < length data then Num (real_of_int (uint (data ! i))) else NaN)"

definition maxDiff :: "8 word list \<Rightarrow> nat \<Rightarrow> js_number" where
  "maxDiff data i =
     (let r = js_read data i;
          g = js_read data (i + 1);
          b = js_read data (i + 2)
      in js_max3 (js_abs (js_sub r g)) (js_abs (js_sub r b)) (js_abs (js_sub g b)))"

text \<open>\<open>for (let i = 0; i < data.length; i += 4)\<close>, started at any \<open>i\<close>.\<close>

function pixel_loop :: "8 word list \<Rightarrow> js_number \<Rightarrow> nat \<Rightarrow> nat \<Rightarrow> nat" where
  "pixel_loop data varianceThreshold i colorPixelCount =
     (if i < length data then
        pixel_loop data varianceThreshold (i + 4)
          (if js_gt (maxDiff data i) varianceThreshold then colorPixelCount + 1
           else colorPixelCount)
      else colorPixelCount)"
  by pat_completeness auto
termination
  by (relation "measure (\<lambda>(data, varianceThreshold, i, colorPixelCount). length data - i)") auto

declare pixel_loop.simps [simp del]

text \<open>
  The returned object \<open>{isColor, colorPixels, totalPixels}\<close>. Its first field is named
  \<open>isColor_result\<close> here, \<open>isColor\<close> being the field of a page status; \<open>totalPixels\<close> is
  \<open>data.length / 4\<close>, a fraction when the length is not a multiple of 4.
\<close>

record analysis =
  isColor_result :: bool
  colorPixels :: nat
  totalPixels :: real

definition analyzeImagePixelData :: "8 word list \<Rightarrow> js_number \<Rightarrow> js_number \<Rightarrow> analysis" where
  "analyzeImagePixelData data varianceThreshold coverageThreshold =
     (let totalPixels = real (length data) / 4;
          colorPixelCount = pixel_loop data varianceThreshold 0 0;
          coverage = js_div colorPixelCount totalPixels
      in \<lparr>isColor_result = js_gt coverage coverageThreshold,
          colorPixels = colorPixelCount,
          totalPixels = totalPixels\<rparr>)"

text \<open>
  Indexing a typed array and arithmetic never raise, and there is no \<open>throw\<close>: every call
  returns.
\<close>

definition analyzeImagePixelData_call ::
  "8 word list \<Rightarrow> js_number \<Rightarrow> js_number \<Rightarrow> error + analysis" where
  "analyzeImagePixelData_call data varianceThreshold coverageThreshold =
     Inr (analyzeImagePixelData data varianceThreshold coverageThreshold)"

section \<open>formatPageRanges\<close>

text \<open>
  The elements of the array are numbers with an integer value; such a number is given by
  that integer.
\<close>

definition digit_char :: "nat \<Rightarrow> char" where
  "digit_char d = ''0123456789'' ! d"

text \<open>All decimal digits of a natural number, and how many they are.\<close>

fun decimal_of_nat :: "nat \<Rightarrow> string" where
  "decimal_of_nat n =
     (if n < 10 then [digit_char n] else decimal_of_nat (n div 10) @ [digit_char (n mod 10)])"

fun count_digits :: "nat \<Rightarrow> nat" where
  "count_digits n = (if n < 10 then 1 else Suc (count_digits (n div 10)))"

declare decimal_of_nat.simps [simp del]
declare count_digits.simps [simp del]

text \<open>
  The text of a number is that of the decimal with the fewest significant digits that
  still rounds to the number, the one nearest to the number when there are several. For
  \<open>k\<close> significant digits the candidates are the two multiples of the \<open>k\<close>-th digit's unit
  around \<open>x\<close>; the digit counts \<open>ks\<close> are tried in turn, and 17 digits always suffice.
\<close>

fun shortest_decimal :: "nat list \<Rightarrow> nat \<Rightarrow> nat" where
  "shortest_decimal [] x = x"
| "shortest_decimal (k # ks) x =
     (let scale = 10 ^ (count_digits x - k);
          lo = (x div scale) * scale;
          hi = lo + scale;
          lo_ok = (js_round (real lo) = Num (real x));
          hi_ok = (js_round (real hi) = Num (real x))
      in if lo_ok \<and> hi_ok then
           (if x - lo < hi - x then lo
            else if hi - x < x - lo then hi
            else if even (x div scale) then lo else hi)
         else if lo_ok then lo
         else if hi_ok then hi
         else shortest_decimal ks x)"

text \<open>
  The text of a number that is not negative: all digits up to 21 of them, and from 22
  digits on the significant digits with a point after the first and the exponent.
\<close>

definition nat_to_string :: "nat \<Rightarrow> string" where
  "nat_to_string x =
     (let y = shortest_decimal [1, 2, 3, 4, 5, 6, 7, 8, 9, 10, 11, 12, 13, 14, 15, 16, 17] x;
          n = count_digits y
      in if n \<le> 21 then decimal_of_nat y
         else (case rev (dropWhile (\<lambda>c. c = CHR ''0'') (rev (decimal_of_nat y))) of
                 [] \<Rightarrow> []
               | d # ds \<Rightarrow> (if ds = [] then [d] else d # CHR ''.'' # ds)
                            @ ''e+'' @ decimal_of_nat (n - 1)))"

text \<open>The text of a number in a template literal.\<close>

definition number_to_string :: "int \<Rightarrow> string" where
  "number_to_string n =
     (if n < 0 then ''-'' @ nat_to_string (nat (- n)) else nat_to_string (nat n))"

text \<open>The token of one range: \<open>start\<close> alone when \<open>start === prev\<close>, else \<open>start-prev\<close>.\<close>

definition range_token :: "int \<Rightarrow> int \<Rightarrow> string" where
  "range_token start prev =
     (if start = prev then number_to_string start
      else number_to_string start @ ''-'' @ number_to_string prev)"

text \<open>
  The loop over \<open>sorted[1]\<close>, \<open>sorted[2]\<close>, ...: the first argument is the part of the
  array still to be read, the result is the state \<open>(start, prev, ranges)\<close> after the loop.
  The sum \<open>prev + 1\<close> is a sum of doubles.
\<close>

fun ranges_loop :: "int list \<Rightarrow> int \<Rightarrow> int \<Rightarrow> string list \<Rightarrow> int \<times> int \<times> string list" where
  "ranges_loop [] start prev ranges = (start, prev, ranges)"
| "ranges_loop (current # rest) start prev ranges =
     (if js_strict_eq (Num (of_int current)) (js_add (Num (of_int prev)) (Num 1))
      then ranges_loop rest start current ranges
      else ranges_loop rest current current (ranges @ [range_token start prev]))"

text \<open>\<open>ranges.join(sep)\<close>\<close>

fun join :: "string \<Rightarrow> string list \<Rightarrow> string" where
  "join sep [] = []"
| "join sep [x] = x"
| "join sep (x # y # ys) = x @ sep @ join sep (y # ys)"

text \<open>
  After the early return the array is not empty, so neither is \<open>sorted\<close>; were it empty,
  \<open>sorted[0]\<close> would be \<open>undefined\<close> and the single token the text \<open>undefined\<close>.
\<close>

definition formatPageRanges :: "int list \<Rightarrow> string" where
  "formatPageRanges pageNumbers =
     (if length pageNumbers = 0 then ''None''
      else (case sort_numeric (new_Set pageNumbers) of
              [] \<Rightarrow> ''undefined''
            | first # rest \<Rightarrow>
                (case ranges_loop rest first first [] of
                   (start, prev, ranges) \<Rightarrow> join '', '' (ranges @ [range_token start prev]))))"

section \<open>Notions the properties are stated with\<close>

text \<open>
  The maximal runs of consecutive integers of an ascending sequence without repetitions
  that begins with the run \<open>a .. b\<close>: each run as the pair of its first and last element.
\<close>

fun runs_from :: "int \<Rightarrow> int \<Rightarrow> int list \<Rightarrow> (int \<times> int) list" where
  "runs_from a b [] = [(a, b)]"
| "runs_from a b (x # xs) =
     (if x = b + 1 then runs_from a x xs else (a, b) # runs_from x x xs)"

definition maximal_runs :: "int list \<Rightarrow> (int \<times> int) list" where
  "maximal_runs xs =
     (case sorted_list_of_set (set xs) of [] \<Rightarrow> [] | a # rest \<Rightarrow> runs_from a a rest)"

text \<open>An integer written with all its decimal digits.\<close>

definition decimal :: "int \<Rightarrow> string" where
  "decimal n = (if n < 0 then ''-'' @ decimal_of_nat (nat (- n)) else decimal_of_nat (nat n))"

text \<open>The effective colour status of page \<open>p\<close>: its entry in the input, B&W when absent.\<close>

definition effective :: "page_status list \<Rightarrow> int \<Rightarrow> bool" where
  "effective allPagesStatus p = get_or_false (build_pageMap allPagesStatus) p"

text \<open>
  The colour test of the pixel with index \<open>k\<close>: the largest channel difference, computed
  on the channel values as integers, exceeds the threshold.
\<close>

definition pixel_is_color :: "8 word list \<Rightarrow> js_number \<Rightarrow> nat \<Rightarrow> bool" where
  "pixel_is_color data varianceThreshold k =
     (let R = uint (data ! (4 * k));
          G = uint (data ! (4 * k + 1));
          B = uint (data ! (4 * k + 2))
      in js_gt (Num (real_of_int (max (max \<bar>R - G\<bar> \<bar>R - B\<bar>) \<bar>G - B\<bar>))) varianceThreshold)"

text \<open>
  The bucket of page \<open>p\<close>: its sheet is the odd page \<open>a\<close> and the even page \<open>a + 1\<close>;
  a whole sheet of one kind is a double sheet, and a page of a mixed sheet, or the last
  page of an odd total, is placed by its own status.
\<close>

datatype bucket = DoubleColor | DoubleBW | MixedColor | MixedBW

definition bucket_of :: "(int \<rightharpoonup> bool) \<Rightarrow> int \<Rightarrow> int \<Rightarrow> bucket" where
  "bucket_of pageMap totalPages p =
     (let a = (if odd p then p else p - 1);
          b = a + 1
      in if totalPages < b then (if get_or_false pageMap p then MixedColor else MixedBW)
         else if get_or_false pageMap a \<and> get_or_false pageMap b then DoubleColor
         else if \<not> get_or_false pageMap a \<and> \<not> get_or_false pageMap b then DoubleBW
         else if get_or_false pageMap p then MixedColor else MixedBW)"

fun bucket_set :: "bucket \<Rightarrow> split_sets \<Rightarrow> int list" where
  "bucket_set DoubleColor s = doubleColorSet s"
| "bucket_set DoubleBW s = doubleBWSet s"
| "bucket_set MixedColor s = mixedColorSet s"
| "bucket_set MixedBW s = mixedBWSet s"

definition stats_bucket :: "bucket \<Rightarrow> split_stats \<Rightarrow> int list" where
  "stats_bucket B r =
     (case B of DoubleColor \<Rightarrow> doubleColorSheets r | DoubleBW \<Rightarrow> doubleBWSheets r
      | MixedColor \<Rightarrow> mixedColorPages r | MixedBW \<Rightarrow> mixedBWPages r)"

section \<open>Properties of calculateSmartSplitStats\<close>

subsection \<open>The loop over sheets\<close>

lemma set_set_add: "set (set_add s x) = insert x (set s)"
  by (auto simp: set_add_def)

lemma distinct_set_add: "distinct s \<Longrightarrow> distinct (set_add s x)"
  by (simp add: set_add_def)

lemma bucket_of_front:
  "odd i \<Longrightarrow> bucket_of pageMap totalPages i =
     (if totalPages < i + 1 then (if get_or_false pageMap i then MixedColor else MixedBW)
      else if get_or_false pageMap i \<and> get_or_false pageMap (i + 1) then DoubleColor
      else if \<not> get_or_false pageMap i \<and> \<not> get_or_false pageMap (i + 1) then DoubleBW
      else if get_or_false pageMap i then MixedColor else MixedBW)"
  by (simp add: bucket_of_def)

lemma bucket_of_back:
  "odd i \<Longrightarrow> i + 1 \<le> totalPages \<Longrightarrow> bucket_of pageMap totalPages (i + 1) =
     (if get_or_false pageMap i \<and> get_or_false pageMap (i + 1) then DoubleColor
      else if \<not> get_or_false pageMap i \<and> \<not> get_or_false pageMap (i + 1) then DoubleBW
      else if get_or_false pageMap (i + 1) then MixedColor else MixedBW)"
  by (simp add: bucket_of_def)

lemma sheet_pages:
  assumes "i \<le> totalPages"
  shows "{p. i \<le> p \<and> p < i + 2 \<and> p \<le> totalPages \<and> bucket_of pageMap totalPages p = B} =
         (if bucket_of pageMap totalPages i = B then {i} else {}) \<union>
         (if i + 1 \<le> totalPages \<and> bucket_of pageMap totalPages (i + 1) = B then {i + 1} else {})"
proof -
  have "{p. i \<le> p \<and> p < i + 2 \<and> p \<le> totalPages \<and> bucket_of pageMap totalPages p = B} =
        {p. (p = i \<or> p = i + 1) \<and> p \<le> totalPages \<and> bucket_of pageMap totalPages p = B}"
    by (rule Collect_cong) auto
  then show ?thesis using assms by auto
qed

lemma sheet_step_sets:
  assumes "odd i" "i \<le> totalPages"
  shows "set (bucket_set B (sheet_step pageMap totalPages i s)) =
         set (bucket_set B s) \<union> {p. i \<le> p \<and> p < i + 2 \<and> p \<le> totalPages \<and> bucket_of pageMap totalPages p = B}"
proof (cases "i + 1 \<le> totalPages")
  case True
  show ?thesis
    unfolding sheet_pages[OF assms(2)] bucket_of_front[OF assms(1)] bucket_of_back[OF assms(1) True]
    using True
    by (cases B) (simp_all add: sheet_step_def Let_def set_set_add)
next
  case False
  show ?thesis
    unfolding sheet_pages[OF assms(2)] bucket_of_front[OF assms(1)]
    using False
    by (cases B) (simp_all add: sheet_step_def Let_def set_set_add)
qed

lemma sheet_step_distinct:
  "distinct (bucket_set B s) \<Longrightarrow> distinct (bucket_set B (sheet_step pageMap totalPages i s))"
  by (cases B) (simp_all add: sheet_step_def Let_def distinct_set_add)

lemma sheet_loop_sets:
  "odd i \<Longrightarrow> set (bucket_set B (sheet_loop pageMap totalPages i s)) =
         set (bucket_set B s) \<union> {p. i \<le> p \<and> p \<le> totalPages \<and> bucket_of pageMap totalPages p = B}"
proof (induction pageMap totalPages i s rule: sheet_loop.induct)
  case (1 pageMap totalPages i s)
  show ?case
  proof (cases "i \<le> totalPages")
    case True
    have "odd (i + 2)" using "1.prems" by simp
    from "1.IH"[OF True this] sheet_step_sets[OF "1.prems" True, of B pageMap s]
    show ?thesis using True
      by (subst sheet_loop.simps) auto
  next
    case False
    then show ?thesis by (subst sheet_loop.simps) auto
  qed
qed

lemma sheet_loop_distinct:
  "distinct (bucket_set B s) \<Longrightarrow> distinct (bucket_set B (sheet_loop pageMap totalPages i s))"
proof (induction pageMap totalPages i s rule: sheet_loop.induct)
  case (1 pageMap totalPages i s)
  show ?case
  proof (cases "i \<le> totalPages")
    case True
    from "1.IH"[OF True sheet_step_distinct[OF "1.prems"]]
    show ?thesis using True by (subst sheet_loop.simps) simp
  next
    case False
    then show ?thesis using "1.prems" by (subst sheet_loop.simps) simp
  qed
qed

subsection \<open>The returned arrays\<close>

lemma stats_bucket_calc:
  "stats_bucket B (calculateSmartSplitStats ps T) =
     sort_numeric (bucket_set B (sheet_loop (build_pageMap ps) T 1 empty_sets))"
  by (cases B) (simp_all add: stats_bucket_def calculateSmartSplitStats_def Let_def)

lemma set_stats_bucket:
  "set (stats_bucket B (calculateSmartSplitStats ps T)) =
     {p. 1 \<le> p \<and> p \<le> T \<and> bucket_of (build_pageMap ps) T p = B}"
proof -
  have "set (bucket_set B empty_sets) = {}"
    by (cases B) (simp_all add: empty_sets_def)
  then show ?thesis
    by (simp add: stats_bucket_calc sort_numeric_def sheet_loop_sets)
qed

lemma sorted_stats_bucket:
  "sorted_wrt (<) (stats_bucket B (calculateSmartSplitStats ps T))"
proof -
  have "distinct (bucket_set B empty_sets)"
    by (cases B) (simp_all add: empty_sets_def)
  then have "distinct (bucket_set B (sheet_loop (build_pageMap ps) T 1 empty_sets))"
    by (rule sheet_loop_distinct)
  then show ?thesis
    by (simp add: stats_bucket_calc sort_numeric_def strict_sorted_iff)
qed

lemma set_doubleColorSheets:
  "set (doubleColorSheets (calculateSmartSplitStats ps T)) =
     {p. 1 \<le> p \<and> p \<le> T \<and> bucket_of (build_pageMap ps) T p = DoubleColor}"
  using set_stats_bucket[of DoubleColor ps T] by (simp add: stats_bucket_def)

lemma set_doubleBWSheets:
  "set (doubleBWSheets (calculateSmartSplitStats ps T)) =
     {p. 1 \<le> p \<and> p \<le> T \<and> bucket_of (build_pageMap ps) T p = DoubleBW}"
  using set_stats_bucket[of DoubleBW ps T] by (simp add: stats_bucket_def)

lemma set_mixedColorPages:
  "set (mixedColorPages (calculateSmartSplitStats ps T)) =
     {p. 1 \<le> p \<and> p \<le> T \<and> bucket_of (build_pageMap ps) T p = MixedColor}"
  using set_stats_bucket[of MixedColor ps T] by (simp add: stats_bucket_def)

lemma set_mixedBWPages:
  "set (mixedBWPages (calculateSmartSplitStats ps T)) =
     {p. 1 \<le> p \<and> p \<le> T \<and> bucket_of (build_pageMap ps) T p = MixedBW}"
  using set_stats_bucket[of MixedBW ps T] by (simp add: stats_bucket_def)

lemmas set_stats = set_doubleColorSheets set_doubleBWSheets set_mixedColorPages set_mixedBWPages

text \<open>
  Claim C1. For every list of page statuses and every \<open>totalPages\<close>, each of the four
  arrays returned by \<open>calculateSmartSplitStats\<close> is strictly ascending (so sorted and free
  of duplicates), the four arrays are pairwise disjoint, and together they hold exactly the
  pages \<open>1, ..., totalPages\<close> (no page at all when \<open>totalPages\<close> is below 1).
\<close>

theorem buckets_partition_pages:
  "sorted_wrt (<) (doubleColorSheets (calculateSmartSplitStats allPagesStatus totalPages)) \<and>
   sorted_wrt (<) (doubleBWSheets (calculateSmartSplitStats allPagesStatus totalPages)) \<and>
   sorted_wrt (<) (mixedColorPages (calculateSmartSplitStats allPagesStatus totalPages)) \<and>
   sorted_wrt (<) (mixedBWPages (calculateSmartSplitStats allPagesStatus totalPages)) \<and>
   set (doubleColorSheets (calculateSmartSplitStats allPagesStatus totalPages)) \<inter>
     set (doubleBWSheets (calculateSmartSplitStats allPagesStatus totalPages)) = {} \<and>
   set (doubleColorSheets (calculateSmartSplitStats allPagesStatus totalPages)) \<inter>
     set (mixedColorPages (calculateSmartSplitStats allPagesStatus totalPages)) = {} \<and>
   set (doubleColorSheets (calculateSmartSplitStats allPagesStatus totalPages)) \<inter>
     set (mixedBWPages (calculateSmartSplitStats allPagesStatus totalPages)) = {} \<and>
   set (doubleBWSheets (calculateSmartSplitStats allPagesStatus totalPages)) \<inter>
     set (mixedColorPages (calculateSmartSplitStats allPagesStatus totalPages)) = {} \<and>
   set (doubleBWSheets (calculateSmartSplitStats allPagesStatus totalPages)) \<inter>
     set (mixedBWPages (calculateSmartSplitStats allPagesStatus totalPages)) = {} \<and>
   set (mixedColorPages (calculateSmartSplitStats allPagesStatus totalPages)) \<inter>
     set (mixedBWPages (calculateSmartSplitStats allPagesStatus totalPages)) = {} \<and>
   set (doubleColorSheets (calculateSmartSplitStats allPagesStatus totalPages)) \<union>
     set (doubleBWSheets (calculateSmartSplitStats allPagesStatus totalPages)) \<union>
     set (mixedColorPages (calculateSmartSplitStats allPagesStatus totalPages)) \<union>
     set (mixedBWPages (calculateSmartSplitStats allPagesStatus totalPages)) = {1..totalPages}"
proof -
  let ?r = "calculateSmartSplitStats allPagesStatus totalPages"
  have srt: "sorted_wrt (<) (doubleColorSheets ?r)" "sorted_wrt (<) (doubleBWSheets ?r)"
    "sorted_wrt (<) (mixedColorPages ?r)" "sorted_wrt (<) (mixedBWPages ?r)"
    using sorted_stats_bucket[of DoubleColor allPagesStatus totalPages]
      sorted_stats_bucket[of DoubleBW allPagesStatus totalPages]
      sorted_stats_bucket[of MixedColor allPagesStatus totalPages]
      sorted_stats_bucket[of MixedBW allPagesStatus totalPages]
    by (simp_all add: stats_bucket_def)
  have disj: "set (doubleColorSheets ?r) \<inter> set (doubleBWSheets ?r) = {}"
    "set (doubleColorSheets ?r) \<inter> set (mixedColorPages ?r) = {}"
    "set (doubleColorSheets ?r) \<inter> set (mixedBWPages ?r) = {}"
    "set (doubleBWSheets ?r) \<inter> set (mixedColorPages ?r) = {}"
    "set (doubleBWSheets ?r) \<inter> set (mixedBWPages ?r) = {}"
    "set (mixedColorPages ?r) \<inter> set (mixedBWPages ?r) = {}"
    unfolding set_stats by auto
  have "\<And>p. bucket_of (build_pageMap allPagesStatus) totalPages p = DoubleColor \<or>
            bucket_of (build_pageMap allPagesStatus) totalPages p = DoubleBW \<or>
            bucket_of (build_pageMap allPagesStatus) totalPages p = MixedColor \<or>
            bucket_of (build_pageMap allPagesStatus) totalPages p = MixedBW"
    using bucket.exhaust by blast
  then have un: "set (doubleColorSheets ?r) \<union> set (doubleBWSheets ?r) \<union>
      set (mixedColorPages ?r) \<union> set (mixedBWPages ?r) = {1..totalPages}"
    unfolding set_stats by auto
  from srt disj un show ?thesis by blast
qed

subsection \<open>The page map and what the loop reads of it\<close>

lemma sheet_step_cong:
  assumes "get_or_false m i = get_or_false m' i"
    and "i + 1 \<le> T \<Longrightarrow> get_or_false m (i + 1) = get_or_false m' (i + 1)"
  shows "sheet_step m T i s = sheet_step m' T i s"
  using assms by (cases "i + 1 \<le> T") (simp_all add: sheet_step_def Let_def)

lemma sheet_loop_cong:
  "(\<And>p. i \<le> p \<Longrightarrow> p \<le> T \<Longrightarrow> get_or_false m p = get_or_false m' p) \<Longrightarrow>
   sheet_loop m T i s = sheet_loop m' T i s"
proof (induction m T i s rule: sheet_loop.induct)
  case (1 m T i s)
  show ?case
  proof (cases "i \<le> T")
    case True
    have step: "sheet_step m T i s = sheet_step m' T i s"
      using True "1.prems" by (intro sheet_step_cong) auto
    have "sheet_loop m T (i + 2) (sheet_step m T i s) =
          sheet_loop m' T (i + 2) (sheet_step m T i s)"
      using True "1.prems" by (intro "1.IH") auto
    then show ?thesis
      using True step
      by (subst sheet_loop.simps, subst (2) sheet_loop.simps) simp
  next
    case False
    then show ?thesis
      by (subst sheet_loop.simps, subst (2) sheet_loop.simps) simp
  qed
qed

lemma calculateSmartSplitStats_cong:
  assumes "\<And>p. 1 \<le> p \<Longrightarrow> p \<le> T \<Longrightarrow> effective ps p = effective qs p"
  shows "calculateSmartSplitStats ps T = calculateSmartSplitStats qs T"
proof -
  have "sheet_loop (build_pageMap ps) T 1 empty_sets = sheet_loop (build_pageMap qs) T 1 empty_sets"
    using assms by (intro sheet_loop_cong) (simp add: effective_def)
  then show ?thesis by (simp add: calculateSmartSplitStats_def)
qed

lemma foldl_pageMap:
  "foldl (\<lambda>m p. m(pageNumber p \<mapsto> isColor p)) m ps =
     m ++ map_of (rev (map (\<lambda>p. (pageNumber p, isColor p)) ps))"
  by (induction ps arbitrary: m) simp_all

lemma build_pageMap_map_of:
  "build_pageMap ps = map_of (rev (map (\<lambda>p. (pageNumber p, isColor p)) ps))"
  by (simp add: build_pageMap_def foldl_pageMap)

lemma effective_Nil: "effective [] k = False"
  by (simp add: effective_def build_pageMap_def get_or_false_def)

lemma effective_snoc:
  "effective (ps @ [q]) k = (if k = pageNumber q then isColor q else effective ps k)"
  by (simp add: effective_def build_pageMap_def get_or_false_def)

lemma effective_absent: "k \<notin> pageNumber ` set ps \<Longrightarrow> \<not> effective ps k"
  by (induction ps rule: rev_induct) (auto simp: effective_Nil effective_snoc)

lemma effective_filter:
  "P k \<Longrightarrow> effective (filter (\<lambda>p. P (pageNumber p)) ps) k = effective ps k"
  by (induction ps rule: rev_induct) (auto simp: effective_Nil effective_snoc)

lemma effective_perm:
  assumes "distinct (map pageNumber ps)" "mset qs = mset ps"
  shows "effective qs k = effective ps k"
proof -
  let ?kv = "\<lambda>p. (pageNumber p, isColor p)"
  have fst: "\<And>xs. map fst (rev (map ?kv xs)) = rev (map pageNumber xs)"
    by (simp add: rev_map comp_def)
  have dq: "distinct (map pageNumber qs)"
    using assms by (metis distinct_map mset_eq_setD mset_map mset_eq_imp_distinct_iff)
  have "set qs = set ps" using assms(2) by (rule mset_eq_setD)
  then have "set (rev (map ?kv qs)) = set (rev (map ?kv ps))" by simp
  then have "map_of (rev (map ?kv qs)) = map_of (rev (map ?kv ps))"
    using assms(1) dq by (subst map_of_inject_set) (simp_all add: fst)
  then show ?thesis by (simp add: effective_def build_pageMap_map_of)
qed

lemma effective_append:
  "effective (xs @ ys) k =
     (if k \<in> pageNumber ` set ys then effective ys k else effective xs k)"
proof (induction ys rule: rev_induct)
  case Nil
  then show ?case by simp
next
  case (snoc y ys)
  have "effective (xs @ ys @ [y]) k =
        (if k = pageNumber y then isColor y else effective (xs @ ys) k)"
    using effective_snoc[of "xs @ ys" y k] by simp
  with snoc show ?case by (auto simp: effective_snoc)
qed

subsection \<open>Sheets and their buckets\<close>

text \<open>
  Claim C2. For an odd page \<open>i\<close> from 1 on whose partner \<open>i + 1\<close> exists, both pages are in
  \<open>doubleColorSheets\<close> when both are colour, both in \<open>doubleBWSheets\<close> when both are B&W,
  and otherwise each is in \<open>mixedColorPages\<close> or \<open>mixedBWPages\<close> by its own status; the
  last page of an odd total is in \<open>mixedColorPages\<close> when colour and in \<open>mixedBWPages\<close>
  when not. For six pages with statuses T, T, F, F, T, F the result is
  \<open>[1,2]\<close>, \<open>[3,4]\<close>, \<open>[5]\<close>, \<open>[6]\<close>.
\<close>

theorem sheet_classification:
  "(odd i \<and> 1 \<le> i \<and> i + 1 \<le> totalPages \<longrightarrow>
     (if effective ps i \<and> effective ps (i + 1) then
        i \<in> set (doubleColorSheets (calculateSmartSplitStats ps totalPages)) \<and>
        i + 1 \<in> set (doubleColorSheets (calculateSmartSplitStats ps totalPages))
      else if \<not> effective ps i \<and> \<not> effective ps (i + 1) then
        i \<in> set (doubleBWSheets (calculateSmartSplitStats ps totalPages)) \<and>
        i + 1 \<in> set (doubleBWSheets (calculateSmartSplitStats ps totalPages))
      else
        (if effective ps i then i \<in> set (mixedColorPages (calculateSmartSplitStats ps totalPages))
         else i \<in> set (mixedBWPages (calculateSmartSplitStats ps totalPages))) \<and>
        (if effective ps (i + 1) then
           i + 1 \<in> set (mixedColorPages (calculateSmartSplitStats ps totalPages))
         else i + 1 \<in> set (mixedBWPages (calculateSmartSplitStats ps totalPages))))) \<and>
   (odd totalPages \<and> 1 \<le> totalPages \<longrightarrow>
     (if effective ps totalPages then
        totalPages \<in> set (mixedColorPages (calculateSmartSplitStats ps totalPages))
      else totalPages \<in> set (mixedBWPages (calculateSmartSplitStats ps totalPages)))) \<and>
   calculateSmartSplitStats
     [\<lparr>pageNumber = 1, isColor = True\<rparr>, \<lparr>pageNumber = 2, isColor = True\<rparr>,
      \<lparr>pageNumber = 3, isColor = False\<rparr>, \<lparr>pageNumber = 4, isColor = False\<rparr>,
      \<lparr>pageNumber = 5, isColor = True\<rparr>, \<lparr>pageNumber = 6, isColor = False\<rparr>] 6 =
     \<lparr>doubleColorSheets = [1, 2], doubleBWSheets = [3, 4],
      mixedColorPages = [5], mixedBWPages = [6]\<rparr>"
proof (intro conjI impI)
  assume h: "odd i \<and> 1 \<le> i \<and> i + 1 \<le> totalPages"
  then have "odd i" "1 \<le> i" "i + 1 \<le> totalPages" "i \<le> totalPages" by auto
  then show "if effective ps i \<and> effective ps (i + 1) then
        i \<in> set (doubleColorSheets (calculateSmartSplitStats ps totalPages)) \<and>
        i + 1 \<in> set (doubleColorSheets (calculateSmartSplitStats ps totalPages))
      else if \<not> effective ps i \<and> \<not> effective ps (i + 1) then
        i \<in> set (doubleBWSheets (calculateSmartSplitStats ps totalPages)) \<and>
        i + 1 \<in> set (doubleBWSheets (calculateSmartSplitStats ps totalPages))
      else
        (if effective ps i then i \<in> set (mixedColorPages (calculateSmartSplitStats ps totalPages))
         else i \<in> set (mixedBWPages (calculateSmartSplitStats ps totalPages))) \<and>
        (if effective ps (i + 1) then
           i + 1 \<in> set (mixedColorPages (calculateSmartSplitStats ps totalPages))
         else i + 1 \<in> set (mixedBWPages (calculateSmartSplitStats ps totalPages)))"
    by (simp add: set_stats bucket_of_front bucket_of_back effective_def)
next
  assume "odd totalPages \<and> 1 \<le> totalPages"
  then show "if effective ps totalPages then
        totalPages \<in> set (mixedColorPages (calculateSmartSplitStats ps totalPages))
      else totalPages \<in> set (mixedBWPages (calculateSmartSplitStats ps totalPages))"
    by (simp add: set_stats bucket_of_front effective_def)
next
  show "calculateSmartSplitStats
     [\<lparr>pageNumber = 1, isColor = True\<rparr>, \<lparr>pageNumber = 2, isColor = True\<rparr>,
      \<lparr>pageNumber = 3, isColor = False\<rparr>, \<lparr>pageNumber = 4, isColor = False\<rparr>,
      \<lparr>pageNumber = 5, isColor = True\<rparr>, \<lparr>pageNumber = 6, isColor = False\<rparr>] 6 =
     \<lparr>doubleColorSheets = [1, 2], doubleBWSheets = [3, 4],
      mixedColorPages = [5], mixedBWPages = [6]\<rparr>"
    by code_simp
qed

theorem sheet_classification_witness:
  "odd (1::int) \<and> (1::int) \<le> 1 \<and> (1::int) + 1 \<le> 5 \<and> odd (5::int) \<and> (1::int) \<le> 5 \<and>
   \<not> effective [\<lparr>pageNumber = 5, isColor = True\<rparr>] 1 \<and>
   \<not> effective [\<lparr>pageNumber = 5, isColor = True\<rparr>] 2 \<and>
   effective [\<lparr>pageNumber = 5, isColor = True\<rparr>] 5 \<and>
   1 \<in> set (doubleBWSheets (calculateSmartSplitStats [\<lparr>pageNumber = 5, isColor = True\<rparr>] 5)) \<and>
   2 \<in> set (doubleBWSheets (calculateSmartSplitStats [\<lparr>pageNumber = 5, isColor = True\<rparr>] 5)) \<and>
   5 \<in> set (mixedColorPages (calculateSmartSplitStats [\<lparr>pageNumber = 5, isColor = True\<rparr>] 5))"
proof -
  have e: "\<not> effective [\<lparr>pageNumber = 5, isColor = True\<rparr>] 1"
    "\<not> effective [\<lparr>pageNumber = 5, isColor = True\<rparr>] 2"
    "effective [\<lparr>pageNumber = 5, isColor = True\<rparr>] 5"
    by (simp_all add: effective_def build_pageMap_def get_or_false_def)
  show ?thesis
    using sheet_classification[of 1 5 "[\<lparr>pageNumber = 5, isColor = True\<rparr>]"] e
    by simp
qed

subsection \<open>Missing, permuted, out-of-range and invalid entries\<close>

text \<open>
  Claim C5. A page \<open>p\<close> of \<open>1..totalPages\<close> without an entry in the input has the
  effective status B&W: it is in neither colour array, so in \<open>doubleBWSheets\<close> or
  \<open>mixedBWPages\<close>, and the result is the one obtained with an explicit B&W entry for
  \<open>p\<close> added.
\<close>

theorem unclassified_page_is_bw:
  assumes "p \<notin> pageNumber ` set ps" and "1 \<le> p" and "p \<le> totalPages"
  shows "\<not> effective ps p \<and>
         p \<notin> set (doubleColorSheets (calculateSmartSplitStats ps totalPages)) \<and>
         p \<notin> set (mixedColorPages (calculateSmartSplitStats ps totalPages)) \<and>
         (p \<in> set (doubleBWSheets (calculateSmartSplitStats ps totalPages)) \<or>
          p \<in> set (mixedBWPages (calculateSmartSplitStats ps totalPages))) \<and>
         calculateSmartSplitStats (ps @ [\<lparr>pageNumber = p, isColor = False\<rparr>]) totalPages =
           calculateSmartSplitStats ps totalPages"
proof -
  have bw: "\<not> effective ps p" using assms(1) by (rule effective_absent)
  then have g: "\<not> get_or_false (build_pageMap ps) p" by (simp add: effective_def)
  have b: "bucket_of (build_pageMap ps) totalPages p = DoubleBW \<or>
           bucket_of (build_pageMap ps) totalPages p = MixedBW"
    using g by (auto simp: bucket_of_def Let_def)
  have in_bw: "p \<in> set (doubleBWSheets (calculateSmartSplitStats ps totalPages)) \<or>
               p \<in> set (mixedBWPages (calculateSmartSplitStats ps totalPages))"
    using b assms(2,3) by (simp add: set_stats)
  have not_col: "p \<notin> set (doubleColorSheets (calculateSmartSplitStats ps totalPages))"
    "p \<notin> set (mixedColorPages (calculateSmartSplitStats ps totalPages))"
    using b by (auto simp: set_stats)
  have same: "calculateSmartSplitStats (ps @ [\<lparr>pageNumber = p, isColor = False\<rparr>]) totalPages =
              calculateSmartSplitStats ps totalPages"
    using bw by (intro calculateSmartSplitStats_cong) (simp add: effective_snoc)
  from bw in_bw not_col same show ?thesis by blast
qed

theorem unclassified_page_is_bw_witness:
  "(2::int) \<notin> pageNumber ` set [\<lparr>pageNumber = 1, isColor = True\<rparr>] \<and> (1::int) \<le> 2 \<and> (2::int) \<le> 2 \<and>
   \<not> effective [\<lparr>pageNumber = 1, isColor = True\<rparr>] 2 \<and>
   2 \<in> set (mixedBWPages (calculateSmartSplitStats [\<lparr>pageNumber = 1, isColor = True\<rparr>] 2)) \<and>
   calculateSmartSplitStats
     [\<lparr>pageNumber = 1, isColor = True\<rparr>, \<lparr>pageNumber = 2, isColor = False\<rparr>] 2 =
     calculateSmartSplitStats [\<lparr>pageNumber = 1, isColor = True\<rparr>] 2"
proof -
  have m: "2 \<in> set (mixedBWPages (calculateSmartSplitStats [\<lparr>pageNumber = 1, isColor = True\<rparr>] 2))"
    by code_simp
  show ?thesis
    using unclassified_page_is_bw[of 2 "[\<lparr>pageNumber = 1, isColor = True\<rparr>]" 2] m
    by simp
qed

text \<open>
  Claim C6. When the page numbers of the input are pairwise different, every permutation
  of the input gives the same four arrays.
\<close>

theorem order_independent:
  assumes "distinct (map pageNumber ps)" and "mset qs = mset ps"
  shows "calculateSmartSplitStats qs totalPages = calculateSmartSplitStats ps totalPages"
  using assms by (intro calculateSmartSplitStats_cong) (rule effective_perm)

theorem order_independent_witness:
  "distinct (map pageNumber [\<lparr>pageNumber = 1, isColor = True\<rparr>, \<lparr>pageNumber = 2, isColor = False\<rparr>]) \<and>
   mset [\<lparr>pageNumber = 2, isColor = False\<rparr>, \<lparr>pageNumber = 1, isColor = True\<rparr>] =
     mset [\<lparr>pageNumber = 1, isColor = True\<rparr>, \<lparr>pageNumber = 2, isColor = False\<rparr>] \<and>
   calculateSmartSplitStats [\<lparr>pageNumber = 2, isColor = False\<rparr>, \<lparr>pageNumber = 1, isColor = True\<rparr>] 2 =
     calculateSmartSplitStats [\<lparr>pageNumber = 1, isColor = True\<rparr>, \<lparr>pageNumber = 2, isColor = False\<rparr>] 2"
proof -
  have d: "distinct (map pageNumber [\<lparr>pageNumber = 1, isColor = True\<rparr>, \<lparr>pageNumber = 2, isColor = False\<rparr>])"
    by simp
  have m: "mset [\<lparr>pageNumber = 2, isColor = False\<rparr>, \<lparr>pageNumber = 1, isColor = True\<rparr>] =
     mset [\<lparr>pageNumber = 1, isColor = True\<rparr>, \<lparr>pageNumber = 2, isColor = False\<rparr>]"
    by (simp add: add_mset_commute)
  from d m order_independent[OF d m, of 2] show ?thesis by blast
qed

text \<open>
  Claim C10. Entries whose page number is outside \<open>1..totalPages\<close> have no effect: the
  result is the result on the input without them.
\<close>

theorem out_of_range_entries_ignored:
  "calculateSmartSplitStats allPagesStatus totalPages =
   calculateSmartSplitStats
     (filter (\<lambda>p. 1 \<le> pageNumber p \<and> pageNumber p \<le> totalPages) allPagesStatus) totalPages"
proof (rule calculateSmartSplitStats_cong)
  fix p :: int
  assume "1 \<le> p" "p \<le> totalPages"
  then show "effective allPagesStatus p =
    effective (filter (\<lambda>p. 1 \<le> pageNumber p \<and> pageNumber p \<le> totalPages) allPagesStatus) p"
    using effective_filter[of "\<lambda>k. 1 \<le> k \<and> k \<le> totalPages" p allPagesStatus] by simp
qed

text \<open>
  Claim C9 fails on the code, which validates nothing: an input with a zero, a negative
  and a duplicated page number is processed and returns.
\<close>

theorem invalid_page_numbers_counterexample:
  "calculateSmartSplitStats_call
     [\<lparr>pageNumber = 0, isColor = True\<rparr>, \<lparr>pageNumber = - 1, isColor = True\<rparr>,
      \<lparr>pageNumber = 1, isColor = True\<rparr>, \<lparr>pageNumber = 1, isColor = False\<rparr>] 1 =
   Inr \<lparr>doubleColorSheets = [], doubleBWSheets = [], mixedColorPages = [], mixedBWPages = [1]\<rparr>"
  by code_simp

text \<open>
  Claim C9, amended. \<open>calculateSmartSplitStats\<close> raises no error on any input: it returns
  the result of the input without the entries whose page number is zero or negative, and
  an entry, wherever it stands in the input, overrides every earlier entry with the same
  page number: the status of a page is that of the last entry with its number.
\<close>

theorem invalid_page_numbers_not_rejected:
  "calculateSmartSplitStats_call ps totalPages =
     Inr (calculateSmartSplitStats (filter (\<lambda>p. 0 < pageNumber p) ps) totalPages) \<and>
   calculateSmartSplitStats (xs @ q # ys) totalPages =
     calculateSmartSplitStats
       (filter (\<lambda>p. pageNumber p \<noteq> pageNumber q) xs @ q # ys) totalPages \<and>
   effective (xs @ q # ys) (pageNumber q) =
     (if pageNumber q \<in> pageNumber ` set ys then effective ys (pageNumber q) else isColor q)"
proof (intro conjI)
  have "calculateSmartSplitStats ps totalPages =
        calculateSmartSplitStats (filter (\<lambda>p. 0 < pageNumber p) ps) totalPages"
  proof (rule calculateSmartSplitStats_cong)
    fix p :: int
    assume "1 \<le> p" "p \<le> totalPages"
    then show "effective ps p = effective (filter (\<lambda>p. 0 < pageNumber p) ps) p"
      using effective_filter[of "\<lambda>k. 0 < k" p ps] by simp
  qed
  then show "calculateSmartSplitStats_call ps totalPages =
     Inr (calculateSmartSplitStats (filter (\<lambda>p. 0 < pageNumber p) ps) totalPages)"
    by (simp add: calculateSmartSplitStats_call_def)
next
  show "calculateSmartSplitStats (xs @ q # ys) totalPages =
     calculateSmartSplitStats
       (filter (\<lambda>p. pageNumber p \<noteq> pageNumber q) xs @ q # ys) totalPages"
  proof (rule calculateSmartSplitStats_cong)
    fix p :: int
    show "effective (xs @ q # ys) p =
          effective (filter (\<lambda>p. pageNumber p \<noteq> pageNumber q) xs @ q # ys) p"
    proof (cases "p \<in> pageNumber ` set (q # ys)")
      case True
      then show ?thesis by (simp only: effective_append if_True)
    next
      case False
      then have "p \<noteq> pageNumber q" by simp
      then have "effective (filter (\<lambda>p. pageNumber p \<noteq> pageNumber q) xs) p = effective xs p"
        by (rule effective_filter[where P = "\<lambda>k. k \<noteq> pageNumber q"])
      with False show ?thesis by (simp only: effective_append if_False)
    qed
  qed
next
  have "effective (q # ys) (pageNumber q) =
        (if pageNumber q \<in> pageNumber ` set ys then effective ys (pageNumber q) else isColor q)"
    using effective_append[of "[q]" ys "pageNumber q"] effective_snoc[of "[]" q "pageNumber q"]
    by simp
  then show "effective (xs @ q # ys) (pageNumber q) =
     (if pageNumber q \<in> pageNumber ` set ys then effective ys (pageNumber q) else isColor q)"
    using effective_append[of xs "q # ys" "pageNumber q"] by simp
qed

section \<open>Properties of JavaScript numbers\<close>

subsection \<open>Evaluation on numerals\<close>

lemma floorlog2_numeral [simp]:
  "floorlog2 (numeral k) = (if numeral k < (2::nat) then 0 else Suc (floorlog2 (numeral k div 2)))"
  by (rule floorlog2.simps)

lemma floorlog2_small [simp]: "floorlog2 0 = 0" "floorlog2 1 = 0" "floorlog2 (Suc 0) = 0"
  by (simp_all add: floorlog2.simps)

lemma decimal_of_nat_numeral [simp]:
  "decimal_of_nat (numeral k) =
     (if numeral k < (10::nat) then [digit_char (numeral k)]
      else decimal_of_nat (numeral k div 10) @ [digit_char (numeral k mod 10)])"
  by (rule decimal_of_nat.simps)

lemma decimal_of_nat_small [simp]:
  "decimal_of_nat 0 = ''0''" "decimal_of_nat 1 = ''1''" "decimal_of_nat (Suc 0) = ''1''"
  by (simp_all add: decimal_of_nat.simps digit_char_def)

lemma count_digits_numeral [simp]:
  "count_digits (numeral k) =
     (if numeral k < (10::nat) then 1 else Suc (count_digits (numeral k div 10)))"
  by (rule count_digits.simps)

lemma count_digits_small [simp]:
  "count_digits 0 = 1" "count_digits 1 = 1" "count_digits (Suc 0) = 1"
  by (simp_all add: count_digits.simps)

lemmas js_eval = js_round_def round_magnitude_def binary_exponent_def pow2_def Let_def
  nat_to_string_def number_to_string_def digit_char_def

subsection \<open>Integers below \<open>2^53\<close> are doubles\<close>

lemma floorlog2_bounds:
  "0 < n \<Longrightarrow> 2 ^ floorlog2 n \<le> n \<and> n < 2 * 2 ^ floorlog2 n"
proof (induction n rule: floorlog2.induct)
  case (1 n)
  show ?case
  proof (cases "n < 2")
    case True
    with "1.prems" have "n = 1" by simp
    then show ?thesis by simp
  next
    case False
    then have pos: "0 < n div 2" by simp
    from "1.IH"[OF False pos] have
      lo: "2 ^ floorlog2 (n div 2) \<le> n div 2" and hi: "n div 2 < 2 * 2 ^ floorlog2 (n div 2)"
      by simp_all
    have fl: "floorlog2 n = Suc (floorlog2 (n div 2))"
      using False by (subst floorlog2.simps) simp
    from lo have "2 * 2 ^ floorlog2 (n div 2) \<le> n" by linarith
    moreover from hi have "n < 2 * (2 * 2 ^ floorlog2 (n div 2))" by linarith
    ultimately show ?thesis by (simp add: fl)
  qed
qed

lemma pow2_diff: "b \<le> a \<Longrightarrow> pow2 (int a - int b) = 2 ^ (a - b)"
  by (simp add: pow2_def nat_diff_distrib')

lemma pow2_diff_neg: "a \<le> b \<Longrightarrow> pow2 (int a - int b) = 1 / 2 ^ (b - a)"
  by (cases "a = b") (simp_all add: pow2_def nat_diff_distrib')

lemma binary_exponent_nat: "0 < m \<Longrightarrow> binary_exponent (real m) = int (floorlog2 m)"
  by (simp add: binary_exponent_def)

lemma round_magnitude_small:
  assumes "0 < m" and "m < 2 ^ 53"
  shows "round_magnitude (real m) = real m"
proof -
  let ?e = "floorlog2 m"
  from floorlog2_bounds[OF assms(1)] have "(2::nat) ^ ?e \<le> m" by simp
  with assms(2) have "(2::nat) ^ ?e < 2 ^ 53" by linarith
  from power_less_imp_less_exp[OF _ this] have e: "?e \<le> 52" by simp
  define k where "k = 52 - ?e"
  have mx: "max (binary_exponent (real m)) (- 1022) = int ?e"
    by (simp add: binary_exponent_nat[OF assms(1)])
  have ulp: "pow2 (int ?e - 52) = 1 / 2 ^ k"
    using pow2_diff_neg[of ?e 52] e by (simp add: k_def)
  have n: "real m / (1 / 2 ^ k) = real_of_int (int (m * 2 ^ k))" by simp
  have fl: "\<lfloor>real_of_int (int (m * 2 ^ k))\<rfloor> = int (m * 2 ^ k)" by (rule floor_of_int)
  show ?thesis
    unfolding round_magnitude_def Let_def mx ulp n fl by simp
qed

lemma round_magnitude_big:
  assumes "2 ^ 53 \<le> m"
  shows "2 ^ 53 \<le> round_magnitude (real m)"
proof -
  let ?e = "floorlog2 m"
  have pos: "0 < m" using assms by (metis less_le_trans zero_less_numeral zero_less_power)
  from floorlog2_bounds[OF pos] have lo: "(2::nat) ^ ?e \<le> m" and hi: "m < 2 ^ Suc ?e" by simp_all
  from assms hi have "(2::nat) ^ 53 < 2 ^ Suc ?e" by linarith
  from power_less_imp_less_exp[OF _ this] have e: "53 \<le> ?e" by simp
  define k where "k = ?e - 52"
  have ek: "?e = k + 52" using e by (simp add: k_def)
  have mx: "max (binary_exponent (real m)) (- 1022) = int ?e"
    by (simp add: binary_exponent_nat[OF pos])
  have ulp: "pow2 (int ?e - 52) = 2 ^ k"
    using pow2_diff[of 52 ?e] e by (simp add: k_def)
  have "real ((2::nat) ^ ?e) \<le> real m" using lo by (simp only: of_nat_le_iff)
  then have "(2::real) ^ 52 * 2 ^ k \<le> real m" by (simp add: ek power_add mult.commute)
  then have n52: "(2::real) ^ 52 \<le> real m / 2 ^ k" by (simp add: pos_le_divide_eq)
  then have "real_of_int (2 ^ 52) \<le> real m / 2 ^ k" by simp
  then have f52: "(2::int) ^ 52 \<le> \<lfloor>real m / 2 ^ k\<rfloor>" by (simp only: le_floor_iff)
  define r where "r = (if real m / 2 ^ k - of_int \<lfloor>real m / 2 ^ k\<rfloor> < 1 / 2 then \<lfloor>real m / 2 ^ k\<rfloor>
      else if 1 / 2 < real m / 2 ^ k - of_int \<lfloor>real m / 2 ^ k\<rfloor> then \<lfloor>real m / 2 ^ k\<rfloor> + 1
      else if even \<lfloor>real m / 2 ^ k\<rfloor> then \<lfloor>real m / 2 ^ k\<rfloor> else \<lfloor>real m / 2 ^ k\<rfloor> + 1)"
  have "(2::int) ^ 52 \<le> r" using f52 by (simp add: r_def)
  then have "real_of_int (2 ^ 52) \<le> real_of_int r" by (simp only: of_int_le_iff)
  then have "(2::real) ^ 52 * 2 ^ k \<le> real_of_int r * 2 ^ k" by simp
  moreover have "1 \<le> k" using e by (simp add: k_def)
  then have "(2::real) ^ 1 \<le> 2 ^ k" by (rule power_increasing) simp
  then have "(2::real) ^ 53 \<le> 2 ^ 52 * 2 ^ k" by simp
  ultimately have "(2::real) ^ 53 \<le> real_of_int r * 2 ^ k" by linarith
  moreover have "round_magnitude (real m) = real_of_int r * 2 ^ k"
    unfolding round_magnitude_def Let_def mx ulp r_def by simp
  ultimately show ?thesis by simp
qed

lemma pow2_1024: "pow2 1024 = 2 ^ 1024"
  by (simp add: pow2_def)

lemma js_round_nat_small:
  assumes "m < 2 ^ 53"
  shows "js_round (real m) = Num (real m)"
proof (cases "m = 0")
  case True
  then show ?thesis by (simp add: js_round_def)
next
  case False
  then have pos: "0 < m" by simp
  have "real m < 2 ^ 53" using assms by (metis of_nat_less_iff of_nat_numeral of_nat_power)
  moreover have "(2::real) ^ 53 \<le> 2 ^ 1024" by (rule power_increasing) simp_all
  ultimately have "\<not> (2::real) ^ 1024 \<le> real m" by linarith
  then show ?thesis
    using pos by (simp add: js_round_def round_magnitude_small[OF pos assms] pow2_1024)
qed

lemma js_round_int_small:
  assumes "\<bar>v\<bar> < 2 ^ 53"
  shows "js_round (of_int v) = Num (of_int v)"
proof (cases "0 \<le> v")
  case True
  then have "nat v < 2 ^ 53" using assms by (simp add: nat_less_iff)
  from js_round_nat_small[OF this] True show ?thesis by simp
next
  case False
  define m where "m = nat (- v)"
  have m: "m < 2 ^ 53" "0 < m" using assms False by (simp_all add: m_def nat_less_iff)
  have v: "real_of_int v = - real m" using False by (simp add: m_def)
  have "real m < 2 ^ 53" using m(1) by (metis of_nat_less_iff of_nat_numeral of_nat_power)
  moreover have "(2::real) ^ 53 \<le> 2 ^ 1024" by (rule power_increasing) simp_all
  ultimately have "\<not> (2::real) ^ 1024 \<le> real m" by linarith
  then show ?thesis
    using m(2) by (simp add: v js_round_def round_magnitude_small[OF m(2) m(1)] pow2_1024)
qed

lemma js_round_nat_valid:
  assumes "js_round (real y) = Num (real x)" and "x < 2 ^ 53"
  shows "y = x"
proof (cases "y < 2 ^ 53")
  case True
  from js_round_nat_small[OF True] assms(1) show ?thesis by simp
next
  case False
  then have big: "2 ^ 53 \<le> y" by simp
  then have pos: "0 < y" by (metis less_le_trans zero_less_numeral zero_less_power)
  have "real x < 2 ^ 53" using assms(2) by (metis of_nat_less_iff of_nat_numeral of_nat_power)
  with round_magnitude_big[OF big] have ne: "round_magnitude (real y) \<noteq> real x" by linarith
  have "js_round (real y) \<noteq> Num (real x)"
    using pos ne by (simp add: js_round_def Let_def)
  with assms(1) show ?thesis by contradiction
qed

lemma shortest_decimal_small: "x < 2 ^ 53 \<Longrightarrow> shortest_decimal ks x = x"
proof (induction ks)
  case Nil
  then show ?case by simp
next
  case (Cons k ks)
  let ?scale = "(10::nat) ^ (count_digits x - k)"
  let ?lo = "(x div ?scale) * ?scale"
  have lo: "js_round (real ?lo) = Num (real x) \<Longrightarrow> ?lo = x"
    using Cons.prems by (rule js_round_nat_valid[rotated])
  have hi: "js_round (real (?lo + ?scale)) = Num (real x) \<Longrightarrow> ?lo + ?scale = x"
    using Cons.prems by (rule js_round_nat_valid[rotated])
  show ?case
    using lo hi Cons.IH[OF Cons.prems]
    by (auto simp: Let_def)
qed

lemma count_digits_le: "0 < k \<Longrightarrow> x < 10 ^ k \<Longrightarrow> count_digits x \<le> k"
proof (induction k arbitrary: x)
  case 0
  then show ?case by simp
next
  case (Suc k)
  show ?case
  proof (cases "x < 10")
    case True
    then show ?thesis by (subst count_digits.simps) simp
  next
    case False
    then have k: "0 < k" using Suc.prems(2) by (cases k) simp_all
    have "x div 10 < 10 ^ k" using Suc.prems(2) by (simp add: less_mult_imp_div_less mult.commute)
    from Suc.IH[OF k this] False show ?thesis by (subst count_digits.simps) simp
  qed
qed

lemma nat_to_string_small: "x < 2 ^ 53 \<Longrightarrow> nat_to_string x = decimal_of_nat x"
proof -
  assume x: "x < 2 ^ 53"
  have "(2::nat) ^ 53 < 10 ^ 21" by simp
  with x have "x < 10 ^ 21" by linarith
  then have "count_digits x \<le> 21" by (intro count_digits_le) simp_all
  then show ?thesis by (simp add: nat_to_string_def shortest_decimal_small[OF x])
qed

lemma number_to_string_small: "\<bar>v\<bar> < 2 ^ 53 \<Longrightarrow> number_to_string v = decimal v"
  by (simp add: number_to_string_def decimal_def nat_to_string_small nat_less_iff)

lemma js_round_2_53: "js_round 9007199254740992 = Num 9007199254740992"
  by (simp add: js_eval)

lemma js_add_one:
  assumes "\<bar>p\<bar> < 2 ^ 53"
  shows "js_add (Num (of_int p)) (Num 1) = Num (of_int (p + 1))"
proof (cases "p + 1 = 2 ^ 53")
  case True
  have "real_of_int p + 1 = real_of_int (p + 1)" by simp
  then show ?thesis unfolding js_add.simps by (simp only: True) (simp add: js_round_2_53)
next
  case False
  then have "\<bar>p + 1\<bar> < 2 ^ 53" using assms by linarith
  from js_round_int_small[OF this] show ?thesis by simp
qed

lemma consecutive_test:
  assumes "\<bar>p\<bar> < 2 ^ 53"
  shows "js_strict_eq (Num (of_int c)) (js_add (Num (of_int p)) (Num 1)) \<longleftrightarrow> c = p + 1"
  unfolding js_add_one[OF assms] by (simp only: js_strict_eq.simps of_int_eq_iff)

lemma js_sub_bytes:
  fixes a b :: "8 word"
  shows "js_sub (Num (real_of_int (uint a))) (Num (real_of_int (uint b))) =
         Num (real_of_int (uint a - uint b))"
proof -
  have "uint a < 256" "uint b < 256"
    using uint_bounded[of a] uint_bounded[of b] by simp_all
  moreover have "0 \<le> uint a" "0 \<le> uint b" by simp_all
  moreover have "(2::int) ^ 53 = 9007199254740992" by simp
  ultimately have "\<bar>uint a - uint b\<bar> < 2 ^ 53" by linarith
  from js_round_int_small[OF this] show ?thesis by simp
qed

subsection \<open>The exponent and the nearest double\<close>

text \<open>
  The exponent of a positive real is the one its definition names, and the rounded value
  is a multiple of the unit in the last place at most half a unit away.
\<close>

lemma pow2_pos: "0 < pow2 e"
  by (simp add: pow2_def)

lemma binary_exponent_bounds:
  assumes "0 < a"
  shows "pow2 (binary_exponent a) \<le> a \<and> a < pow2 (binary_exponent a + 1)"
proof (cases "1 \<le> a")
  case True
  define m where "m = nat \<lfloor>a\<rfloor>"
  have m1: "0 < m" using True by (simp add: m_def)
  have ma: "real m \<le> a" "a < real m + 1" using True by (simp_all add: m_def)
  from floorlog2_bounds[OF m1] have lo: "2 ^ floorlog2 m \<le> m" and hi: "m + 1 \<le> 2 * 2 ^ floorlog2 m"
    by simp_all
  have "real (2 ^ floorlog2 m) \<le> real m" using lo by (simp only: of_nat_le_iff)
  then have "(2::real) ^ floorlog2 m \<le> real m" by simp
  then have l: "(2::real) ^ floorlog2 m \<le> a" using ma(1) by linarith
  have "real (m + 1) \<le> real (2 * 2 ^ floorlog2 m)" using hi by (simp only: of_nat_le_iff)
  then have "real m + 1 \<le> 2 * 2 ^ floorlog2 m" by simp
  then have h: "a < 2 * 2 ^ floorlog2 m" using ma(2) by linarith
  have e: "binary_exponent a = int (floorlog2 m)" using True by (simp add: binary_exponent_def m_def)
  show ?thesis using l h by (simp add: e pow2_def nat_add_distrib)
next
  case False
  define c where "c = nat \<lceil>1 / a\<rceil>"
  define n where "n = floorlog2 (c - 1)"
  have y1: "1 < 1 / a" using assms False by simp
  then have c1: "1 < \<lceil>1 / a\<rceil>" by linarith
  then have c2: "2 \<le> c" unfolding c_def by linarith
  have rc: "real c = real_of_int \<lceil>1 / a\<rceil>" using c1 by (simp add: c_def)
  have yc: "1 / a \<le> real c" "real c - 1 < 1 / a"
    unfolding rc by linarith+
  have pos: "0 < c - 1" using c2 by simp
  from floorlog2_bounds[OF pos] have lo: "2 ^ n \<le> c - 1" and hi': "c - 1 < 2 * 2 ^ n"
    by (simp_all add: n_def)
  from hi' c2 have hi: "c \<le> 2 * 2 ^ n" by linarith
  have "real (2 ^ n) \<le> real (c - 1)" using lo by (simp only: of_nat_le_iff)
  moreover have "real (c - 1) = real c - 1" using c2 by (simp add: of_nat_diff)
  ultimately have "(2::real) ^ n \<le> real c - 1" by simp
  then have "(2::real) ^ n < 1 / a" using yc(2) by linarith
  then have up: "a < 1 / 2 ^ n" using assms by (simp add: field_simps)
  have "real c \<le> real (2 * 2 ^ n)" using hi by (simp only: of_nat_le_iff)
  then have "real c \<le> 2 * 2 ^ n" by simp
  then have "1 / a \<le> 2 * 2 ^ n" using yc(1) by linarith
  then have low: "1 / (2 * 2 ^ n) \<le> a" using assms by (simp add: field_simps)
  have e: "binary_exponent a = - int (Suc n)"
    using False by (simp add: binary_exponent_def c_def n_def)
  have "nat (int n + 1) = Suc n" by simp
  then have p1: "pow2 (- int (Suc n)) = 1 / (2 * 2 ^ n)" by (simp add: pow2_def)
  have "- int (Suc n) + 1 = - int n" by simp
  then have p2: "pow2 (- int (Suc n) + 1) = 1 / 2 ^ n"
    by (cases n) (simp_all add: pow2_def nat_add_distrib)
  show ?thesis using up low by (simp only: e p1 p2)
qed

lemma round_magnitude_nearest:
  "\<bar>round_magnitude a - a\<bar> \<le> pow2 (max (binary_exponent a) (- 1022) - 52) / 2"
proof -
  define u where "u = pow2 (max (binary_exponent a) (- 1022) - 52)"
  define n where "n = a / u"
  define r where "r = (if n - of_int \<lfloor>n\<rfloor> < 1 / 2 then \<lfloor>n\<rfloor>
      else if 1 / 2 < n - of_int \<lfloor>n\<rfloor> then \<lfloor>n\<rfloor> + 1
      else if even \<lfloor>n\<rfloor> then \<lfloor>n\<rfloor> else \<lfloor>n\<rfloor> + 1)"
  have u: "0 < u" by (simp add: u_def pow2_pos)
  have rm: "round_magnitude a = of_int r * u"
    by (simp add: round_magnitude_def Let_def u_def n_def r_def)
  have a: "a = n * u" using u by (simp add: n_def)
  have "of_int \<lfloor>n\<rfloor> \<le> n" "n < of_int \<lfloor>n\<rfloor> + 1" by linarith+
  then have "\<bar>of_int r - n\<bar> \<le> 1 / 2" by (auto simp: r_def)
  then have "\<bar>of_int r - n\<bar> * u \<le> (1 / 2) * u" using u by (intro mult_right_mono) simp_all
  moreover have "of_int r * u - n * u = (of_int r - n) * u" by (simp add: left_diff_distrib)
  then have "\<bar>of_int r * u - n * u\<bar> = \<bar>of_int r - n\<bar> * u"
    using u by (simp add: abs_mult)
  then have "\<bar>round_magnitude a - a\<bar> = \<bar>of_int r - n\<bar> * u"
    unfolding rm using a by simp
  ultimately show ?thesis by (simp add: u_def)
qed

section \<open>Properties of analyzeImagePixelData\<close>

lemma maxDiff_complete:
  assumes "i + 2 < length data"
  shows "maxDiff data i =
    Num (real_of_int (max (max \<bar>uint (data ! i) - uint (data ! (i + 1))\<bar>
                               \<bar>uint (data ! i) - uint (data ! (i + 2))\<bar>)
                          \<bar>uint (data ! (i + 1)) - uint (data ! (i + 2))\<bar>))"
proof -
  have rd: "js_read data i = Num (real_of_int (uint (data ! i)))"
    "js_read data (i + 1) = Num (real_of_int (uint (data ! (i + 1))))"
    "js_read data (i + 2) = Num (real_of_int (uint (data ! (i + 2))))"
    using assms by (simp_all add: js_read_def)
  show ?thesis
    unfolding maxDiff_def Let_def rd js_sub_bytes
    by (simp only: js_abs.simps js_max3_def js_max.simps of_int_max of_int_abs)
qed

lemma js_max_NaN: "js_max x NaN = NaN"
  by (cases x) simp_all

lemma maxDiff_incomplete: "\<not> i + 2 < length data \<Longrightarrow> maxDiff data i = NaN"
  by (simp add: maxDiff_def js_read_def js_max3_def js_max_NaN Let_def)

lemma js_gt_maxDiff:
  "js_gt (maxDiff data (4 * k)) v \<longleftrightarrow> 4 * k + 2 < length data \<and> pixel_is_color data v k"
  by (cases "4 * k + 2 < length data")
     (simp_all add: maxDiff_complete maxDiff_incomplete pixel_is_color_def Let_def)

lemma pixel_loop_count:
  "pixel_loop data v (4 * k) c =
     c + length (filter (pixel_is_color data v) [k ..< (length data + 1) div 4])"
proof (induction "length data - 4 * k" arbitrary: k c rule: less_induct)
  case less
  show ?case
  proof (cases "4 * k < length data")
    case True
    have "length data - 4 * (k + 1) < length data - 4 * k" using True by arith
    then have IH: "\<And>c'. pixel_loop data v (4 * k + 4) c' =
        c' + length (filter (pixel_is_color data v) [Suc k ..< (length data + 1) div 4])"
      using less[of "k + 1"] by (simp add: algebra_simps)
    have unfold: "pixel_loop data v (4 * k) c =
        pixel_loop data v (4 * k + 4)
          (if 4 * k + 2 < length data \<and> pixel_is_color data v k then c + 1 else c)"
      using True by (subst pixel_loop.simps) (simp only: js_gt_maxDiff if_True)
    show ?thesis
    proof (cases "4 * k + 2 < length data")
      case complete: True
      then have lt: "k < (length data + 1) div 4" by arith
      have "[k ..< (length data + 1) div 4] = k # [Suc k ..< (length data + 1) div 4]"
        using lt by (rule upt_conv_Cons)
      then show ?thesis using complete by (simp add: unfold IH)
    next
      case incomplete: False
      then have "[k ..< (length data + 1) div 4] = []"
        "[Suc k ..< (length data + 1) div 4] = []" by simp_all
      then show ?thesis using incomplete by (simp add: unfold IH)
    qed
  next
    case False
    then have "[k ..< (length data + 1) div 4] = []" by simp
    then show ?thesis using False by (subst pixel_loop.simps) simp
  qed
qed

lemma colorPixels_count:
  "colorPixels (analyzeImagePixelData data v c) =
     length (filter (pixel_is_color data v) [0 ..< (length data + 1) div 4])"
  using pixel_loop_count[of data v 0 0] by (simp add: analyzeImagePixelData_def Let_def)

lemma totalPixels_value: "totalPixels (analyzeImagePixelData data v c) = real (length data) / 4"
  by (simp add: analyzeImagePixelData_def Let_def)

lemma pixel_loop_Nil: "pixel_loop [] v 0 0 = 0"
  by (subst pixel_loop.simps) simp

lemma isColor_result_value:
  "isColor_result (analyzeImagePixelData data v c) \<longleftrightarrow>
     data \<noteq> [] \<and>
     js_gt (js_round (real (colorPixels (analyzeImagePixelData data v c)) /
                      totalPixels (analyzeImagePixelData data v c))) c"
  by (cases "data = []") (simp_all add: analyzeImagePixelData_def Let_def js_div_def pixel_loop_Nil)

lemma not_gt_zero: "js_ge t (Num 0) \<Longrightarrow> \<not> js_gt (Num 0) t"
  by (cases t) simp_all

text \<open>
  The coverage is a rounded quotient: one colour pixel of three gives the double nearest
  to a third, which is below a third and does not exceed itself as a threshold.
\<close>

lemma coverage_is_rounded:
  "\<not> isColor_result
       (analyzeImagePixelData [255, 0, 0, 255, 0, 0, 0, 255, 0, 0, 0, 255] (Num 20)
          (js_round (1 / 3))) \<and>
   js_round (1 / 3) = Num (6004799503160661 / 18014398509481984) \<and>
   (6004799503160661 / 18014398509481984 :: real) < 1 / 3"
proof -
  have r: "js_round (1 / 3) = Num (6004799503160661 / 18014398509481984)"
    by (simp add: js_eval)
  have c: "colorPixels (analyzeImagePixelData [255, 0, 0, 255, 0, 0, 0, 255, 0, 0, 0, 255]
      (Num 20) (js_round (1 / 3))) = 1"
    by (simp add: colorPixels_count pixel_is_color_def Let_def upt_rec)
  have t: "totalPixels (analyzeImagePixelData [255, 0, 0, 255, 0, 0, 0, 255, 0, 0, 0, 255]
      (Num 20) (js_round (1 / 3))) = 3"
    by (simp add: totalPixels_value)
  have "\<not> isColor_result
       (analyzeImagePixelData [255, 0, 0, 255, 0, 0, 0, 255, 0, 0, 0, 255] (Num 20)
          (js_round (1 / 3)))"
    unfolding isColor_result_value c t by (simp add: r)
  with r show ?thesis by simp
qed

subsection \<open>What a call returns\<close>

text \<open>
  Claim C3 fails on the code in its last part: with a negative coverage threshold a
  one-pixel grey buffer has coverage 0, which exceeds the threshold, and is classified
  as colour although the variance threshold is not negative.
\<close>

theorem gray_buffer_counterexample:
  "4 dvd length [10, 10, 10, 255 :: 8 word] \<and> js_ge (Num 20) (Num 0) \<and>
   isColor_result (analyzeImagePixelData [10, 10, 10, 255] (Num 20) (Num (- 1)))"
proof -
  have c: "colorPixels (analyzeImagePixelData [10, 10, 10, 255] (Num 20) (Num (- 1))) = 0"
    by (simp add: colorPixels_count pixel_is_color_def Let_def upt_rec)
  have "isColor_result (analyzeImagePixelData [10, 10, 10, 255] (Num 20) (Num (- 1)))"
    unfolding isColor_result_value c by (simp add: totalPixels_value js_round_def)
  moreover have "4 dvd length [10, 10, 10, 255 :: 8 word]" by code_simp
  ultimately show ?thesis by simp
qed

text \<open>
  Claim C3, amended. On a buffer whose length is a multiple of 4 and for any two
  thresholds, \<open>totalPixels\<close> is the length divided by 4, \<open>colorPixels\<close> is the number of
  pixels whose largest channel difference exceeds \<open>varianceThreshold\<close>, and the result is
  colour exactly when the buffer is not empty and the quotient \<open>colorPixels / totalPixels\<close>,
  which is the exact quotient rounded to a double, exceeds \<open>coverageThreshold\<close>. Hence a
  buffer with R = G = B in every pixel is not colour when neither threshold is below 0.
\<close>

theorem classification_of_wellformed_buffer:
  assumes "4 dvd length data"
  shows "totalPixels (analyzeImagePixelData data varianceThreshold coverageThreshold) =
           real (length data div 4) \<and>
         colorPixels (analyzeImagePixelData data varianceThreshold coverageThreshold) =
           length (filter (pixel_is_color data varianceThreshold) [0 ..< length data div 4]) \<and>
         (isColor_result (analyzeImagePixelData data varianceThreshold coverageThreshold) \<longleftrightarrow>
            data \<noteq> [] \<and>
            js_gt (js_round
                     (real (colorPixels
                              (analyzeImagePixelData data varianceThreshold coverageThreshold)) /
                      totalPixels (analyzeImagePixelData data varianceThreshold coverageThreshold)))
                  coverageThreshold) \<and>
         ((\<forall>k < length data div 4.
              data ! (4 * k) = data ! (4 * k + 1) \<and> data ! (4 * k) = data ! (4 * k + 2)) \<and>
           js_ge varianceThreshold (Num 0) \<and> js_ge coverageThreshold (Num 0) \<longrightarrow>
           \<not> isColor_result (analyzeImagePixelData data varianceThreshold coverageThreshold))"
proof -
  let ?r = "analyzeImagePixelData data varianceThreshold coverageThreshold"
  from assms obtain n where n: "length data = 4 * n" by (auto simp: dvd_def)
  have N: "(length data + 1) div 4 = length data div 4" using n by simp
  have total: "totalPixels ?r = real (length data div 4)"
    using n by (simp add: totalPixels_value)
  have count: "colorPixels ?r =
      length (filter (pixel_is_color data varianceThreshold) [0 ..< length data div 4])"
    by (simp only: colorPixels_count N)
  have gray: "\<not> isColor_result ?r"
    if g: "\<forall>k < length data div 4.
              data ! (4 * k) = data ! (4 * k + 1) \<and> data ! (4 * k) = data ! (4 * k + 2)"
      and v: "js_ge varianceThreshold (Num 0)" and c: "js_ge coverageThreshold (Num 0)"
  proof -
    have "\<not> pixel_is_color data varianceThreshold k" if "k < length data div 4" for k
    proof -
      from g that have "data ! (4 * k) = data ! (4 * k + 1) \<and> data ! (4 * k) = data ! (4 * k + 2)"
        by blast
      note e = this[THEN conjunct1, symmetric] this[THEN conjunct2, symmetric]
      show ?thesis unfolding pixel_is_color_def Let_def e using not_gt_zero[OF v] by simp
    qed
    then have "filter (pixel_is_color data varianceThreshold) [0 ..< length data div 4] = []"
      by (simp add: filter_empty_conv)
    then have "colorPixels ?r = 0" by (simp add: count)
    then show ?thesis using not_gt_zero[OF c] by (simp add: isColor_result_value js_round_def)
  qed
  from total count gray isColor_result_value[of data varianceThreshold coverageThreshold]
  show ?thesis by blast
qed

theorem classification_of_wellformed_buffer_witness:
  "4 dvd length [10, 10, 10, 255 :: 8 word] \<and>
   [10, 10, 10, 255 :: 8 word] ! 0 = [10, 10, 10, 255] ! 1 \<and>
   [10, 10, 10, 255 :: 8 word] ! 0 = [10, 10, 10, 255] ! 2 \<and>
   js_ge (Num 20) (Num 0) \<and> js_ge (Num (1 / 500)) (Num 0) \<and>
   totalPixels (analyzeImagePixelData [10, 10, 10, 255] (Num 20) (Num (1 / 500))) = 1 \<and>
   \<not> isColor_result (analyzeImagePixelData [10, 10, 10, 255] (Num 20) (Num (1 / 500)))"
proof -
  have d: "4 dvd length [10, 10, 10, 255 :: 8 word]" by code_simp
  have n: "length [10, 10, 10, 255 :: 8 word] div 4 = 1" by simp
  have g: "\<forall>k < length [10, 10, 10, 255 :: 8 word] div 4.
      [10, 10, 10, 255 :: 8 word] ! (4 * k) = [10, 10, 10, 255] ! (4 * k + 1) \<and>
      [10, 10, 10, 255 :: 8 word] ! (4 * k) = [10, 10, 10, 255] ! (4 * k + 2)"
    unfolding n by simp
  note inst = classification_of_wellformed_buffer[OF d, of "Num 20" "Num (1 / 500)"]
  from inst have "totalPixels (analyzeImagePixelData [10, 10, 10, 255] (Num 20) (Num (1 / 500))) =
      real (length [10, 10, 10, 255 :: 8 word] div 4)"
    by blast
  then have t: "totalPixels (analyzeImagePixelData [10, 10, 10, 255] (Num 20) (Num (1 / 500))) = 1"
    unfolding n by simp
  have "js_ge (Num 20) (Num 0)" "js_ge (Num (1 / 500)) (Num 0)" by simp_all
  with inst g
  have c: "\<not> isColor_result (analyzeImagePixelData [10, 10, 10, 255] (Num 20) (Num (1 / 500)))"
    by blast
  from d t c show ?thesis by simp
qed

text \<open>
  Claim C7. On the empty buffer the call returns, without an error, the result
  \<open>{isColor: false, colorPixels: 0, totalPixels: 0}\<close>, whatever the thresholds.
\<close>

theorem empty_buffer_is_bw:
  "analyzeImagePixelData_call [] varianceThreshold coverageThreshold =
     Inr \<lparr>isColor_result = False, colorPixels = 0, totalPixels = 0\<rparr>"
  by (simp add: analyzeImagePixelData_call_def analyzeImagePixelData_def Let_def js_div_def
      pixel_loop_Nil)

text \<open>
  Claim C8 fails on the code, which never raises: a buffer of five bytes is analysed and
  a result is returned.
\<close>

theorem malformed_buffer_counterexample:
  "\<not> 4 dvd length [255, 0, 0, 255, 7 :: 8 word] \<and>
   analyzeImagePixelData_call [255, 0, 0, 255, 7] (Num 20) (Num (1 / 500)) =
     Inr \<lparr>isColor_result = True, colorPixels = 1, totalPixels = 5 / 4\<rparr>"
proof -
  let ?r = "analyzeImagePixelData [255, 0, 0, 255, 7] (Num 20) (Num (1 / 500))"
  have c: "colorPixels ?r = 1"
    by (simp add: colorPixels_count pixel_is_color_def Let_def upt_rec)
  have t: "totalPixels ?r = 5 / 4"
    by (simp add: totalPixels_value)
  have i: "isColor_result ?r"
    unfolding isColor_result_value c t by (simp add: js_eval)
  have "?r = \<lparr>isColor_result = True, colorPixels = 1, totalPixels = 5 / 4\<rparr>"
    using c t i by (intro analysis.equality) simp_all
  moreover have "\<not> 4 dvd length [255, 0, 0, 255, 7 :: 8 word]" by code_simp
  ultimately show ?thesis by (simp add: analyzeImagePixelData_call_def)
qed

text \<open>
  Claim C8, amended. \<open>analyzeImagePixelData\<close> raises no error on any buffer, whatever its
  length: it returns \<open>totalPixels\<close> as the length divided by 4, a fraction when the length
  is not a multiple of 4, and \<open>colorPixels\<close> as the number of pixels whose R, G and B
  samples are all in the buffer and whose largest channel difference exceeds
  \<open>varianceThreshold\<close>.
\<close>

theorem malformed_buffer_not_rejected:
  "analyzeImagePixelData_call data varianceThreshold coverageThreshold =
     Inr (analyzeImagePixelData data varianceThreshold coverageThreshold) \<and>
   totalPixels (analyzeImagePixelData data varianceThreshold coverageThreshold) =
     real (length data) / 4 \<and>
   colorPixels (analyzeImagePixelData data varianceThreshold coverageThreshold) =
     length (filter (pixel_is_color data varianceThreshold) [0 ..< (length data + 1) div 4])"
  by (simp add: analyzeImagePixelData_call_def totalPixels_value colorPixels_count)

section \<open>Properties of formatPageRanges\<close>

lemma set_foldl_set_add: "set (foldl set_add acc xs) = set acc \<union> set xs"
  by (induction xs arbitrary: acc) (simp_all add: set_set_add)

lemma distinct_foldl_set_add: "distinct acc \<Longrightarrow> distinct (foldl set_add acc xs)"
  by (induction xs arbitrary: acc) (simp_all add: distinct_set_add)

lemma sort_new_Set: "sort_numeric (new_Set xs) = sorted_list_of_set (set xs)"
proof (rule sorted_distinct_set_unique)
  show "sorted (sort_numeric (new_Set xs))" by (simp add: sort_numeric_def)
  show "distinct (sort_numeric (new_Set xs))"
    by (simp add: sort_numeric_def new_Set_def distinct_foldl_set_add)
  show "set (sort_numeric (new_Set xs)) = set (sorted_list_of_set (set xs))"
    by (simp add: sort_numeric_def new_Set_def set_foldl_set_add)
qed simp_all

lemma ranges_loop_runs:
  assumes "\<bar>b\<bar> < 2 ^ 53" and "\<forall>x \<in> set rest. \<bar>x\<bar> < 2 ^ 53"
  shows "(case ranges_loop rest a b acc of (s, p, rs) \<Rightarrow> rs @ [range_token s p]) =
     acc @ map (\<lambda>(x, y). range_token x y) (runs_from a b rest)"
  using assms
proof (induction rest arbitrary: a b acc)
  case Nil
  then show ?case by simp
next
  case (Cons c rest)
  have c: "\<bar>c\<bar> < 2 ^ 53" and rest: "\<forall>x \<in> set rest. \<bar>x\<bar> < 2 ^ 53"
    using Cons.prems(2) by simp_all
  note test = consecutive_test[OF Cons.prems(1)]
  show ?case
  proof (cases "c = b + 1")
    case True
    have loop: "ranges_loop (c # rest) a b acc = ranges_loop rest a c acc"
      using True by (simp only: ranges_loop.simps test if_True simp_thms)
    have runs: "runs_from a b (c # rest) = runs_from a c rest"
      using True by (simp only: runs_from.simps if_True simp_thms)
    show ?thesis unfolding loop runs by (rule Cons.IH[OF c rest])
  next
    case False
    have loop: "ranges_loop (c # rest) a b acc =
        ranges_loop rest c c (acc @ [range_token a b])"
      using False by (simp only: ranges_loop.simps test if_False)
    have runs: "runs_from a b (c # rest) = (a, b) # runs_from c c rest"
      using False by (simp only: runs_from.simps if_False)
    show ?thesis unfolding loop runs Cons.IH[OF c rest] by simp
  qed
qed

lemma range_token_small:
  "\<bar>a\<bar> < 2 ^ 53 \<Longrightarrow> \<bar>b\<bar> < 2 ^ 53 \<Longrightarrow>
   range_token a b = (if a = b then decimal a else decimal a @ ''-'' @ decimal b)"
  by (simp add: range_token_def number_to_string_small)

lemma runs_from_props:
  assumes "a \<le> b" and "sorted_wrt (<) (b # xs)"
  shows "(\<Union>(c, d) \<in> set (runs_from a b xs). {c..d}) = {a..b} \<union> set xs \<and>
         (\<forall>(c, d) \<in> set (runs_from a b xs). a \<le> c \<and> c \<le> d) \<and>
         sorted_wrt (\<lambda>(a, b) (c, d). b + 1 < c) (runs_from a b xs)"
  using assms
proof (induction xs arbitrary: a b)
  case Nil
  then show ?case by simp
next
  case (Cons x xs)
  from Cons.prems have bx: "b < x" and srt: "sorted_wrt (<) (x # xs)" by auto
  show ?case
  proof (cases "x = b + 1")
    case True
    have "a \<le> x" using Cons.prems(1) bx by simp
    from Cons.IH[OF this srt] True Cons.prems(1) show ?thesis by auto
  next
    case False
    have "x \<le> x" by simp
    from Cons.IH[OF this srt] False bx Cons.prems(1) show ?thesis by fastforce
  qed
qed

lemma maximal_runs_props:
  "(\<forall>(a, b) \<in> set (maximal_runs xs). a \<le> b) \<and>
   sorted_wrt (\<lambda>(a, b) (c, d). b + 1 < c) (maximal_runs xs) \<and>
   (\<Union>(a, b) \<in> set (maximal_runs xs). {a..b}) = set xs"
proof (cases "sorted_list_of_set (set xs)")
  case Nil
  then have "set xs = {}"
    by (metis List.finite_set set_empty sorted_list_of_set.set_sorted_key_list_of_set)
  then show ?thesis by (simp add: maximal_runs_def)
next
  case (Cons a rest)
  have "sorted_wrt (<) (sorted_list_of_set (set xs))"
    by (simp add: strict_sorted_iff)
  then have srt: "sorted_wrt (<) (a # rest)" by (simp only: Cons)
  have "set (sorted_list_of_set (set xs)) = set xs" by simp
  then have s: "{a..a} \<union> set rest = set xs" by (simp only: Cons) simp
  have mr: "maximal_runs xs = runs_from a a rest" by (simp add: maximal_runs_def Cons)
  from runs_from_props[OF order_refl srt] s show ?thesis
    unfolding mr by auto
qed

lemma maximal_runs_ends:
  assumes "(a, b) \<in> set (maximal_runs xs)"
  shows "a \<in> set xs \<and> b \<in> set xs"
proof -
  from maximal_runs_props[of xs] assms have ab: "a \<le> b"
    and sub: "{a..b} \<subseteq> set xs" by auto
  from ab have "a \<in> {a..b}" "b \<in> {a..b}" by simp_all
  with sub show ?thesis by blast
qed

lemma formatPageRanges_runs:
  assumes "\<forall>x \<in> set xs. \<bar>x\<bar> < 2 ^ 53"
  shows "formatPageRanges xs =
     (if xs = [] then ''None''
      else join '', '' (map (\<lambda>(a, b). if a = b then decimal a else decimal a @ ''-'' @ decimal b)
                          (maximal_runs xs)))"
proof (cases "xs = []")
  case True
  then show ?thesis by (simp add: formatPageRanges_def)
next
  case False
  then have "sorted_list_of_set (set xs) \<noteq> []"
    by (metis List.finite_set set_empty sorted_list_of_set.set_sorted_key_list_of_set)
  then obtain a rest where ar: "sorted_list_of_set (set xs) = a # rest"
    by (cases "sorted_list_of_set (set xs)") auto
  have "set (sorted_list_of_set (set xs)) = set xs" by simp
  then have mem: "a \<in> set xs" "set rest \<subseteq> set xs" by (simp_all only: ar) auto
  have a: "\<bar>a\<bar> < 2 ^ 53" and rest: "\<forall>x \<in> set rest. \<bar>x\<bar> < 2 ^ 53"
    using assms mem by auto
  have tok: "map (\<lambda>(x, y). range_token x y) (maximal_runs xs) =
             map (\<lambda>(a, b). if a = b then decimal a else decimal a @ ''-'' @ decimal b)
               (maximal_runs xs)"
  proof (rule map_cong[OF refl])
    fix r assume r: "r \<in> set (maximal_runs xs)"
    obtain c d where cd: "r = (c, d)" by (cases r)
    from maximal_runs_ends[of c d xs] r cd assms have "\<bar>c\<bar> < 2 ^ 53" "\<bar>d\<bar> < 2 ^ 53" by auto
    then show "(case r of (x, y) \<Rightarrow> range_token x y) =
               (case r of (a, b) \<Rightarrow> if a = b then decimal a else decimal a @ ''-'' @ decimal b)"
      by (simp add: cd range_token_small)
  qed
  have mr: "maximal_runs xs = runs_from a a rest" by (simp add: maximal_runs_def ar)
  have "formatPageRanges xs = join '', '' (map (\<lambda>(x, y). range_token x y) (maximal_runs xs))"
    using False ranges_loop_runs[OF a rest, of a "[]"]
    by (simp add: formatPageRanges_def mr sort_new_Set ar split: prod.splits)
  then show ?thesis using False by (simp only: tok if_False)
qed

text \<open>
  The text of a number beyond \<open>2^53\<close> is not that of all its digits: \<open>2^64\<close> is printed
  with 17 significant digits, and from \<open>10^21\<close> on the exponent is written.
\<close>

lemma number_to_string_large:
  "number_to_string 18446744073709551616 = ''18446744073709552000'' \<and>
   number_to_string 1000000000000000000000 = ''1e+21''"
proof -
  have a: "number_to_string 18446744073709551616 = ''18446744073709552000''"
    by (simp add: js_eval)
  have c: "count_digits 1000000000000000000000 = 22"
    by simp
  have b: "number_to_string 1000000000000000000000 = ''1e+21''"
    by (simp add: js_eval c del: count_digits_numeral)
  from a b show ?thesis by simp
qed

text \<open>
  Claim C4 fails on the code for integers from \<open>2^53\<close> on: the sum \<open>prev + 1\<close> is rounded,
  so that \<open>2^53 + 2\<close> and \<open>2^53 + 4\<close>, which are two runs of one element each, are written
  as one range.
\<close>

theorem unsafe_integers_counterexample:
  "formatPageRanges [9007199254740994, 9007199254740996] =
     ''9007199254740994-9007199254740996'' \<and>
   maximal_runs [9007199254740994, 9007199254740996] =
     [(9007199254740994, 9007199254740994), (9007199254740996, 9007199254740996)]"
proof -
  have r: "js_round 9007199254740995 = Num 9007199254740996"
    by (simp add: js_eval)
  have n1: "number_to_string 9007199254740994 = ''9007199254740994''"
    by (simp add: js_eval)
  have n2: "number_to_string 9007199254740996 = ''9007199254740996''"
    by (simp add: js_eval)
  have f: "formatPageRanges [9007199254740994, 9007199254740996] =
     ''9007199254740994-9007199254740996''"
    by (simp add: formatPageRanges_def new_Set_def set_add_def sort_numeric_def range_token_def
        r n1 n2)
  have m: "maximal_runs [9007199254740994, 9007199254740996] =
     [(9007199254740994, 9007199254740994), (9007199254740996, 9007199254740996)]"
    by code_simp
  from f m show ?thesis by simp
qed

lemma decimal_numeral [simp]:
  "decimal (numeral k) = decimal_of_nat (numeral k)"
  "decimal 0 = ''0''" "decimal 1 = ''1''"
  by (simp_all add: decimal_def)

text \<open>
  Claim C4, amended. On integers of magnitude below \<open>2^53\<close>, \<open>formatPageRanges\<close> returns
  \<open>None\<close> for the empty array; otherwise it joins with a comma and a blank the tokens of
  the maximal runs of consecutive integers of the input, taken as a set and in ascending
  order: a run is written as its one element, or as first and last element with a dash,
  each with all its decimal digits. That the runs are the maximal ones is stated by three
  facts: each is an interval \<open>a..b\<close> with \<open>a \<le> b\<close>, the next run begins after \<open>b + 1\<close>, and
  the intervals together are exactly the input's elements. The five examples of the
  specification are evaluated.
\<close>

theorem formatPageRanges_maximal_runs:
  assumes "\<forall>x \<in> set pageNumbers. \<bar>x\<bar> < 2 ^ 53"
  shows
  "formatPageRanges pageNumbers =
     (if pageNumbers = [] then ''None''
      else join '', ''
             (map (\<lambda>(a, b). if a = b then decimal a else decimal a @ ''-'' @ decimal b)
                  (maximal_runs pageNumbers))) \<and>
   (\<forall>(a, b) \<in> set (maximal_runs pageNumbers). a \<le> b) \<and>
   sorted_wrt (\<lambda>(a, b) (c, d). b + 1 < c) (maximal_runs pageNumbers) \<and>
   (\<Union>(a, b) \<in> set (maximal_runs pageNumbers). {a..b}) = set pageNumbers \<and>
   formatPageRanges [] = ''None'' \<and>
   formatPageRanges [5] = ''5'' \<and>
   formatPageRanges [1, 2, 3, 5, 7, 8] = ''1-3, 5, 7-8'' \<and>
   formatPageRanges [3, 1, 2] = ''1-3'' \<and>
   formatPageRanges [4, 4, 4] = ''4''"
proof -
  have e1: "formatPageRanges [] = ''None''" by (simp add: formatPageRanges_def)
  have m2: "maximal_runs [5] = [(5, 5)]" by code_simp
  have e2: "formatPageRanges [5] = ''5''"
    by (subst formatPageRanges_runs) (simp_all add: m2 digit_char_def)
  have m3: "maximal_runs [1, 2, 3, 5, 7, 8] = [(1, 3), (5, 5), (7, 8)]" by code_simp
  have e3: "formatPageRanges [1, 2, 3, 5, 7, 8] = ''1-3, 5, 7-8''"
    by (subst formatPageRanges_runs) (simp_all add: m3 digit_char_def)
  have m4: "maximal_runs [3, 1, 2] = [(1, 3)]" by code_simp
  have e4: "formatPageRanges [3, 1, 2] = ''1-3''"
    by (subst formatPageRanges_runs) (simp_all add: m4 digit_char_def)
  have m5: "maximal_runs [4, 4, 4] = [(4, 4)]" by code_simp
  have e5: "formatPageRanges [4, 4, 4] = ''4''"
    by (subst formatPageRanges_runs) (simp_all add: m5 digit_char_def)
  from formatPageRanges_runs[OF assms] maximal_runs_props[of pageNumbers] e1 e2 e3 e4 e5
  show ?thesis by blast
qed

theorem formatPageRanges_maximal_runs_witness:
  "\<bar>8 :: int\<bar> < 2 ^ 53 \<and> \<bar>1 :: int\<bar> < 2 ^ 53 \<and> \<bar>2 :: int\<bar> < 2 ^ 53 \<and> \<bar>7 :: int\<bar> < 2 ^ 53 \<and>
   \<bar>3 :: int\<bar> < 2 ^ 53 \<and> \<bar>5 :: int\<bar> < 2 ^ 53 \<and>
   maximal_runs [8, 1, 2, 7, 3, 5, 3] = [(1, 3), (5, 5), (7, 8)] \<and>
   (1::int) \<le> 3 \<and> (5::int) \<le> 5 \<and> (7::int) \<le> 8 \<and>
   formatPageRanges [8, 1, 2, 7, 3, 5, 3] = ''1-3, 5, 7-8''"
proof -
  have h: "\<forall>x \<in> set [8, 1, 2, 7, 3, 5, 3 :: int]. \<bar>x\<bar> < 2 ^ 53" by simp
  have m: "maximal_runs [8, 1, 2, 7, 3, 5, 3] = [(1, 3), (5, 5), (7, 8)]" by code_simp
  have j: "join '', '' (map (\<lambda>(a, b). if a = b then decimal a
                             else decimal a @ ''-'' @ decimal b)
                  [(1, 3), (5, 5), (7, 8)]) = ''1-3, 5, 7-8''"
    by (simp add: digit_char_def)
  from formatPageRanges_maximal_runs[OF h]
  have "formatPageRanges [8, 1, 2, 7, 3, 5, 3] = ''1-3, 5, 7-8''"
    unfolding m j by simp
  with m show ?thesis by simp
qed

end
